theory Spec2Isabelle
  imports Complex_Main "HOL-Library.Multiset"
begin

section \<open>Python values\<close>

text \<open>
  A coordinate is a Python float: a real number, or the one non-number \<open>NaN\<close>, on
  which every comparison is false and through which arithmetic propagates. A subtraction
  rounds its exact result to the nearest binary64 number, ties to even
  (\<open>round_double\<close>: 53 significant bits); negation, absolute value and comparison are
  exact. The exponent range is not bounded: the model has no overflow to infinity and no
  subnormal numbers (of the two differences that the vote loop compares only the larger
  can overflow, and a difference of binary64 numbers in the subnormal range is exact).
  A cell of a data frame is either Python's \<open>None\<close> (the marker \<open>pca()\<close> writes for
  a skipped window) or a float.
\<close>

datatype pyfloat = NaN | Fin real

definition round_half_even :: "real \<Rightarrow> int" where
  "round_half_even y =
     (if y - of_int \<lfloor>y\<rfloor> < 1 / 2 then \<lfloor>y\<rfloor>
      else if 1 / 2 < y - of_int \<lfloor>y\<rfloor> then \<lfloor>y\<rfloor> + 1
      else if even \<lfloor>y\<rfloor> then \<lfloor>y\<rfloor> else \<lfloor>y\<rfloor> + 1)"

text \<open>
  The binade of \<open>x\<close> is the \<open>e\<close> with \<open>2^e \<le> |x| < 2^(e+1)\<close>; binary64 numbers of
  that binade are the multiples of \<open>2^(e-52)\<close>.
\<close>

definition binade :: "real \<Rightarrow> int" where
  "binade x = \<lfloor>log 2 \<bar>x\<bar>\<rfloor>"

definition ulp :: "real \<Rightarrow> real" where
  "ulp x = 2 powr (of_int (binade x) - 52)"

definition round_double :: "real \<Rightarrow> real" where
  "round_double x = (if x = 0 then 0 else of_int (round_half_even (x / ulp x)) * ulp x)"

type_synonym cell = "pyfloat option"

text \<open>Arguments that the code uses at more than one Python type.\<close>

datatype pyval = PyInt int | PyStr string

datatype error =
    IndexError | KeyError | AttributeError | TypeError | AxisError | ValueError

fun fsub :: "pyfloat \<Rightarrow> pyfloat \<Rightarrow> pyfloat" where
  "fsub (Fin a) (Fin b) = Fin (round_double (a - b))"
| "fsub _ _ = NaN"

fun fmul :: "pyfloat \<Rightarrow> real \<Rightarrow> pyfloat" where
  "fmul (Fin a) k = Fin (a * k)"
| "fmul NaN k = NaN"

fun fabs :: "pyfloat \<Rightarrow> pyfloat" where
  "fabs (Fin a) = Fin \<bar>a\<bar>"
| "fabs NaN = NaN"

fun fgt :: "pyfloat \<Rightarrow> pyfloat \<Rightarrow> bool" where
  "fgt (Fin a) (Fin b) = (a > b)"
| "fgt _ _ = False"

text \<open>\<open>pandas.isna\<close>: both \<open>None\<close> and \<open>NaN\<close> count as missing.\<close>

fun isna :: "cell \<Rightarrow> bool" where
  "isna None = True"
| "isna (Some NaN) = True"
| "isna (Some (Fin x)) = False"

section \<open>windowed\_pca.py: the per-window PCA and the result containers\<close>

text \<open>
  The module globals \<open>w_mid_lst\<close>, \<open>w_pca_lst\<close> and \<open>w_stats_lst\<close> that
  \<open>pca()\<close> appends to, and the lines it prints to standard error.
\<close>

record results =
  w_mid_lst :: "int list"
  w_pca_lst :: "cell list list"
  w_stats_lst :: "(pyfloat option \<times> pyfloat option \<times> nat) list"
  stderr :: "string list"

text \<open>
  \<open>allel.pca\<close> is a library call: it is a parameter of the model, returning the two
  coordinate columns and the two explained-variance ratios.
\<close>

type_synonym pca_engine = "int list list \<Rightarrow> pyfloat list \<times> pyfloat list \<times> pyfloat \<times> pyfloat"

text \<open>Python's \<open>str()\<close> on integers.\<close>

fun str_nat :: "nat \<Rightarrow> string" where
  "str_nat n =
     (if n < 10 then [''0123456789'' ! n]
      else str_nat (n div 10) @ [''0123456789'' ! (n mod 10)])"

declare str_nat.simps [simp del]

definition str_int :: "int \<Rightarrow> string" where
  "str_int i = (if i < 0 then CHR ''-'' # str_nat (nat (- i)) else str_nat (nat i))"

text \<open>
  \<open>int(w_start + w_size/2-1)\<close>: true division, then truncation towards zero. The
  value is \<open>(2 * w_start + w_size - 2) / 2\<close>.
\<close>

definition w_mid_of :: "int \<Rightarrow> int \<Rightarrow> int" where
  "w_mid_of w_start w_size =
     (let t = 2 * w_start + w_size - 2
      in if 0 \<le> t then t div 2 else - ((- t) div 2))"

definition skipped_notice :: "int \<Rightarrow> int \<Rightarrow> nat \<Rightarrow> nat \<Rightarrow> string" where
  "skipped_notice w_start w_size n_variants min_var_per_w =
     ''[INFO] Skipped window '' @ str_int w_start @ ''-'' @ str_int (w_start + w_size - 1)
       @ '' with '' @ str_nat n_variants @ '' variants (threshold is ''
       @ str_nat min_var_per_w @ '' variants per window)''"

text \<open>
  The last three statements of \<open>pca()\<close>. The second one is the conditional expression
  \<open>(w_pca_lst.append(out[0])) if pc==1 else (out[1])\<close>: when \<open>pc\<close> is not the
  integer 1 it evaluates \<open>out[1]\<close> and appends nothing.
\<close>

definition append_output ::
  "pyval \<Rightarrow> int \<Rightarrow> cell list \<times> cell list \<times> pyfloat option \<times> pyfloat option \<times> nat
     \<Rightarrow> results \<Rightarrow> results" where
  "append_output pc w_mid out st =
     (case out of (out0, out1, out2, out3, out4) \<Rightarrow>
        st\<lparr> w_mid_lst := w_mid_lst st @ [w_mid],
            w_pca_lst := (if pc = PyInt 1 then w_pca_lst st @ [out0] else w_pca_lst st),
            w_stats_lst := w_stats_lst st @ [(out2, out3, out4)] \<rparr>)"

text \<open>
  \<open>pca(win, w_start, w_size)\<close>, with the globals it reads (\<open>min_var_per_w\<close>,
  \<open>pc\<close>) and the containers it mutates made explicit. Each row of \<open>win\<close> is one
  variant: its position followed by one genotype per sample. In the skipping branch the
  notice is printed before \<open>len(win[0])\<close> is evaluated, which raises IndexError on a
  window without variants.
\<close>

definition pca ::
  "pca_engine \<Rightarrow> nat \<Rightarrow> pyval \<Rightarrow> int list list \<Rightarrow> int \<Rightarrow> int \<Rightarrow> results \<Rightarrow> error + results" where
  "pca allel_pca min_var_per_w pc win0 w_start w_size st =
     (let win = map tl win0;
          w_mid = w_mid_of w_start w_size;
          n_variants = length win
      in if n_variants \<ge> min_var_per_w then
           (case allel_pca win of (c1, c2, r1, r2) \<Rightarrow>
              Inr (append_output pc w_mid
                    (map Some c1, map Some c2, Some (fmul r1 100), Some (fmul r2 100), n_variants) st))
         else
           (let st1 = st\<lparr> stderr := stderr st @ [skipped_notice w_start w_size n_variants min_var_per_w] \<rparr>
            in case win of
                 [] \<Rightarrow> Inl IndexError
               | g # _ \<Rightarrow>
                   (let empty_array = replicate (length g) None
                    in Inr (append_output pc w_mid (empty_array, empty_array, None, None, n_variants) st1))))"

definition min_var_per_w_default :: nat where
  "min_var_per_w_default = 50"

definition empty_results :: results where
  "empty_results = \<lparr> w_mid_lst = [], w_pca_lst = [], w_stats_lst = [], stderr = [] \<rparr>"

section \<open>utils.py: polarize\<close>

subsection \<open>The vote loop over one guide sample's row\<close>

text \<open>
  The inner \<open>for window in row[1:]\<close> loop, with its two variables \<open>prev_window\<close>
  and \<open>out\<close>.
\<close>

fun vote_loop :: "pyfloat \<Rightarrow> int list \<Rightarrow> cell list \<Rightarrow> int list" where
  "vote_loop prev_window out [] = out"
| "vote_loop prev_window out (None # rest) = vote_loop prev_window (out @ [0]) rest"
| "vote_loop prev_window out (Some window # rest) =
     (if fgt (fabs (fsub window prev_window)) (fabs (fsub window (fmul prev_window (- 1))))
      then vote_loop (fmul window (- 1)) (out @ [1]) rest
      else vote_loop window (out @ [- 1]) rest)"

text \<open>The body of the outer loop: \<open>row[0]\<close> raises IndexError on a frame without columns.\<close>

definition row_votes :: "cell list \<Rightarrow> error + int list" where
  "row_votes row =
     (case row of
        [] \<Rightarrow> Inl IndexError
      | r0 # rest \<Rightarrow>
          Inr (vote_loop (case r0 of None \<Rightarrow> Fin 0 | Some x \<Rightarrow> x) [0] rest))"

text \<open>
  The vote rule as the specification words it, on rows whose entries are numbers or
  missing: the anchor votes 0, then each value is compared with the running reference
  \<open>prev\<close>. The values are floats, so the two differences \<open>v - prev\<close> and
  \<open>v - (-prev)\<close> are differences of floats.
\<close>

fun spec_votes_from :: "real \<Rightarrow> real option list \<Rightarrow> int list" where
  "spec_votes_from prev [] = []"
| "spec_votes_from prev (None # vs) = 0 # spec_votes_from prev vs"
| "spec_votes_from prev (Some v # vs) =
     (if \<bar>round_double (v - prev)\<bar> > \<bar>round_double (v - (- prev))\<bar>
      then 1 # spec_votes_from (- v) vs
      else (- 1) # spec_votes_from v vs)"

fun spec_votes :: "real option list \<Rightarrow> int list" where
  "spec_votes [] = []"
| "spec_votes (v0 # vs) = 0 # spec_votes_from (case v0 of None \<Rightarrow> 0 | Some x \<Rightarrow> x) vs"

subsection \<open>The data frame\<close>

text \<open>
  \<open>w_pca_df\<close>: the column labels (window midpoints) and, per sample, the index label
  and the row of cells. Column labels are distinct window midpoints, so a column is
  addressed by its position. Every row of a data frame has one cell per column.
\<close>

record track =
  df_columns :: "int list"
  df_rows :: "(string \<times> cell list) list"

definition wf_track :: "track \<Rightarrow> bool" where
  "wf_track df = list_all (\<lambda>ir. length (snd ir) = length (df_columns df)) (df_rows df)"

text \<open>
  \<open>df.loc[labels]\<close> with a list of labels: for each label in turn all rows carrying
  it, and KeyError when a label is not in the index.
\<close>

definition loc :: "(string \<times> cell list) list \<Rightarrow> string list \<Rightarrow> error + (string \<times> cell list) list" where
  "loc rs labels =
     (if list_all (\<lambda>l. l \<in> set (map fst rs)) labels
      then Inr (concat (map (\<lambda>l. filter (\<lambda>ir. fst ir = l) rs) labels))
      else Inl KeyError)"

text \<open>
  \<open>dropna(axis=1)\<close> keeps the columns in which no row is missing; \<open>n\<close> is the
  number of columns.
\<close>

definition complete_cols :: "nat \<Rightarrow> cell list list \<Rightarrow> bool list" where
  "complete_cols n rs = map (\<lambda>j. list_all (\<lambda>r. \<not> isna (r ! j)) rs) [0..<n]"

definition select_cols :: "bool list \<Rightarrow> 'a list \<Rightarrow> 'a list" where
  "select_cols keep r = map snd (filter fst (zip keep r))"

definition dropna_axis1 :: "nat \<Rightarrow> (string \<times> cell list) list \<Rightarrow> (string \<times> cell list) list" where
  "dropna_axis1 n rs =
     map (\<lambda>ir. (fst ir, select_cols (complete_cols n (map snd rs)) (snd ir))) rs"

text \<open>
  The row reductions skip missing cells (\<open>skipna=True\<close>): \<open>abs_vals\<close> is the list of
  the absolute values of a row's numbers, \<open>var_ddof1\<close> the sample variance that
  \<open>var(axis=1)\<close> computes (NaN on fewer than two values).
\<close>

fun abs_vals :: "cell list \<Rightarrow> real list" where
  "abs_vals [] = []"
| "abs_vals (Some (Fin x) # cs) = \<bar>x\<bar> # abs_vals cs"
| "abs_vals (_ # cs) = abs_vals cs"

definition var_ddof1 :: "real list \<Rightarrow> pyfloat" where
  "var_ddof1 xs =
     (if length xs < 2 then NaN
      else Fin (sum_list (map (\<lambda>x. (x - sum_list xs / real (length xs))\<^sup>2) xs)
                / real (length xs - 1)))"

text \<open>
  \<open>sort_values\<close>: NaN keys go last in their original order. The default sort of
  numpy leaves the order of equal keys open; the model keeps them in input order
  (ascending), and likewise inside the double reversal pandas applies for a descending
  sort. The sortedness and permutation facts proved below do not depend on that choice.
\<close>

fun fin_val :: "pyfloat \<Rightarrow> real" where
  "fin_val (Fin x) = x"
| "fin_val NaN = 0"

definition sort_values_asc :: "(string \<times> pyfloat) list \<Rightarrow> (string \<times> pyfloat) list" where
  "sort_values_asc s =
     sort_key (\<lambda>iv. fin_val (snd iv)) (filter (\<lambda>iv. snd iv \<noteq> NaN) s) @ filter (\<lambda>iv. snd iv = NaN) s"

definition sort_values_desc :: "(string \<times> real) list \<Rightarrow> (string \<times> real) list" where
  "sort_values_desc s = rev (sort_key snd (rev s))"

text \<open>The slice \<open>xs[0:k]\<close>; a negative \<open>k\<close> counts from the end.\<close>

definition py_head :: "int \<Rightarrow> 'a list \<Rightarrow> 'a list" where
  "py_head k xs = (if 0 \<le> k then take (nat k) xs else take (length xs - nat (- k)) xs)"

text \<open>\<open>s.split(',')\<close>.\<close>

fun split_comma :: "string \<Rightarrow> string list" where
  "split_comma [] = [[]]"
| "split_comma (c # cs) =
     (if c = CHR '','' then [] # split_comma cs
      else (case split_comma cs of [] \<Rightarrow> [[c]] | w # ws \<Rightarrow> (c # w) # ws))"

subsection \<open>Guide samples\<close>

definition truthy :: "string option \<Rightarrow> bool" where
  "truthy guide_samples = (case guide_samples of None \<Rightarrow> False | Some s \<Rightarrow> s \<noteq> [])"

text \<open>
  The two series of the automatic branch, \<open>w_pca_df.dropna(axis=1).abs().var(axis=1)\<close>
  and \<open>guide_samples_df.dropna(axis=1).abs().sum(axis=1)\<close>, and the labels sliced
  from them after sorting.
\<close>

definition var_series :: "track \<Rightarrow> (string \<times> pyfloat) list" where
  "var_series w_pca_df =
     map (\<lambda>ir. (fst ir, var_ddof1 (abs_vals (snd ir))))
         (dropna_axis1 (length (df_columns w_pca_df)) (df_rows w_pca_df))"

definition var_shortlist :: "track \<Rightarrow> int \<Rightarrow> string list" where
  "var_shortlist w_pca_df var_threshold =
     py_head var_threshold (map fst (sort_values_asc (var_series w_pca_df)))"

definition sum_series :: "nat \<Rightarrow> (string \<times> cell list) list \<Rightarrow> (string \<times> real) list" where
  "sum_series n guide_samples_df =
     map (\<lambda>ir. (fst ir, sum_list (abs_vals (snd ir)))) (dropna_axis1 n guide_samples_df)"

definition sum_shortlist :: "nat \<Rightarrow> (string \<times> cell list) list \<Rightarrow> int \<Rightarrow> string list" where
  "sum_shortlist n guide_samples_df k =
     py_head k (map fst (sort_values_desc (sum_series n guide_samples_df)))"

text \<open>
  Lines 120 to 129 of utils.py: the rows of the guide samples. In the first branch the
  labels are read from \<open>mean_threshold.split(',')\<close>, which raises AttributeError on
  an integer; in the second the slice \<open>[0:mean_threshold]\<close> raises TypeError on a
  string.
\<close>

definition select_guides ::
  "track \<Rightarrow> int \<Rightarrow> pyval \<Rightarrow> string option \<Rightarrow> error + (string \<times> cell list) list" where
  "select_guides w_pca_df var_threshold mean_threshold guide_samples =
     (if truthy guide_samples then
        (case mean_threshold of
           PyInt k \<Rightarrow> Inl AttributeError
         | PyStr s \<Rightarrow>
             (case loc (df_rows w_pca_df) (split_comma s) of
                Inl e \<Rightarrow> Inl e
              | Inr guide_samples_df \<Rightarrow> loc guide_samples_df (split_comma s)))
      else
        (case loc (df_rows w_pca_df) (var_shortlist w_pca_df var_threshold) of
           Inl e \<Rightarrow> Inl e
         | Inr guide_samples_df \<Rightarrow>
             (case mean_threshold of
                PyStr s \<Rightarrow> Inl TypeError
              | PyInt k \<Rightarrow>
                  loc guide_samples_df
                    (sum_shortlist (length (df_columns w_pca_df)) guide_samples_df k))))"

subsection \<open>Votes, window flips and the global flip\<close>

text \<open>The outer loop over the guide rows, collecting \<open>rows_lst\<close>.\<close>

fun rows_votes :: "(string \<times> cell list) list \<Rightarrow> error + int list list" where
  "rows_votes [] = Inr []"
| "rows_votes (ir # others) =
     (case row_votes (snd ir) of
        Inl e \<Rightarrow> Inl e
      | Inr out \<Rightarrow> (case rows_votes others of Inl e \<Rightarrow> Inl e | Inr outs \<Rightarrow> Inr (out # outs)))"

text \<open>
  \<open>np.array(rows_lst, dtype=int).transpose().sum(axis=1)\<close>: the per-window sums, and
  an AxisError when there is no guide row (the array is then one-dimensional).
\<close>

definition switch_lst_of :: "int list list \<Rightarrow> error + int list" where
  "switch_lst_of rows_lst =
     (case rows_lst of
        [] \<Rightarrow> Inl AxisError
      | out # _ \<Rightarrow> Inr (map (\<lambda>j. sum_list (map (\<lambda>votes. votes ! j) rows_lst)) [0..<length out]))"

text \<open>
  One cell of \<open>column * -1\<close>: a number is negated; on an object column holding
  \<open>None\<close> pandas computes on the non-missing cells only and fills the others with NaN.
\<close>

fun cneg :: "cell \<Rightarrow> cell" where
  "cneg None = Some NaN"
| "cneg (Some x) = Some (fmul x (- 1))"

text \<open>The loop over \<open>zip(columns, switch_lst)\<close>, on one row.\<close>

fun flip_cells :: "int list \<Rightarrow> cell list \<Rightarrow> cell list" where
  "flip_cells (val # vals) (c # cs) = (if val < 0 then cneg c else c) # flip_cells vals cs"
| "flip_cells _ cs = cs"

definition flip_windows :: "int list \<Rightarrow> track \<Rightarrow> track" where
  "flip_windows switch_lst df =
     df\<lparr> df_rows := map (\<lambda>ir. (fst ir, flip_cells switch_lst (snd ir))) (df_rows df) \<rparr>"

text \<open>\<open>to_numpy(na_value=0)\<close>, flattened; \<open>min()\<close> and \<open>max()\<close> raise ValueError on no cell.\<close>

fun na0 :: "cell \<Rightarrow> real" where
  "na0 (Some (Fin x)) = x"
| "na0 _ = 0"

definition to_numpy_na0 :: "track \<Rightarrow> real list" where
  "to_numpy_na0 df = concat (map (\<lambda>ir. map na0 (snd ir)) (df_rows df))"

definition negate_track :: "track \<Rightarrow> track" where
  "negate_track df = df\<lparr> df_rows := map (\<lambda>ir. (fst ir, map cneg (snd ir))) (df_rows df) \<rparr>"

definition global_flip :: "track \<Rightarrow> error + track" where
  "global_flip df =
     (case to_numpy_na0 df of
        [] \<Rightarrow> Inl ValueError
      | x # xs \<Rightarrow>
          (if \<bar>fold min xs x\<bar> > \<bar>fold max xs x\<bar> then Inr (negate_track df) else Inr df))"

text \<open>\<open>polarize(w_pca_df, var_threshold, mean_threshold, guide_samples)\<close>.\<close>

definition polarize :: "track \<Rightarrow> int \<Rightarrow> pyval \<Rightarrow> string option \<Rightarrow> error + track" where
  "polarize w_pca_df var_threshold mean_threshold guide_samples =
     (case select_guides w_pca_df var_threshold mean_threshold guide_samples of
        Inl e \<Rightarrow> Inl e
      | Inr guide_samples_df \<Rightarrow>
          (case rows_votes guide_samples_df of
             Inl e \<Rightarrow> Inl e
           | Inr rows_lst \<Rightarrow>
               (case switch_lst_of rows_lst of
                  Inl e \<Rightarrow> Inl e
                | Inr switch_lst \<Rightarrow> global_flip (flip_windows switch_lst w_pca_df))))"

text \<open>
  A call binds every parameter of \<open>polarize\<close> or raises TypeError. \<open>main()\<close> calls
  \<open>polarize(w_pca_df, mean_threshold=mean_threshold, guide_samples=guide_samples)\<close>
  and so passes no \<open>var_threshold\<close>.
\<close>

definition call_polarize ::
  "track \<Rightarrow> int option \<Rightarrow> pyval option \<Rightarrow> string option option \<Rightarrow> error + track" where
  "call_polarize w_pca_df var_threshold mean_threshold guide_samples =
     (case (var_threshold, mean_threshold, guide_samples) of
        (Some v, Some m, Some g) \<Rightarrow> polarize w_pca_df v m g
      | _ \<Rightarrow> Inl TypeError)"

definition main_polarize :: "track \<Rightarrow> pyval \<Rightarrow> string option \<Rightarrow> error + track" where
  "main_polarize w_pca_df mean_threshold guide_samples =
     call_polarize w_pca_df None (Some mean_threshold) (Some guide_samples)"

text \<open>
  The relation between a cell and what a sign flip may have made of it: the same cell,
  or the cell of \<open>column * -1\<close>; either way missing exactly when the cell was.
\<close>

definition same_or_negated :: "cell \<Rightarrow> cell \<Rightarrow> bool" where
  "same_or_negated c c' = ((c' = c \<or> c' = cneg c) \<and> isna c' = isna c)"

text \<open>The order of an ascending \<open>sort_values\<close>: numbers by value, NaN after every number.\<close>

definition nan_last_le :: "pyfloat \<Rightarrow> pyfloat \<Rightarrow> bool" where
  "nan_last_le v w = (w = NaN \<or> (v \<noteq> NaN \<and> fin_val v \<le> fin_val w))"

text \<open>
  Automatic selection as the specification words it: only the samples without a
  missing window are eligible, the variance of the absolute values is taken over all
  windows, and the sums of the shortlisted samples likewise.
\<close>

definition spec_auto_guides :: "track \<Rightarrow> int \<Rightarrow> int \<Rightarrow> (string \<times> cell list) list" where
  "spec_auto_guides df var_threshold mean_threshold =
     (let eligible = filter (\<lambda>ir. \<not> list_ex isna (snd ir)) (df_rows df);
          stable = py_head var_threshold
                     (sort_key (\<lambda>ir. fin_val (var_ddof1 (abs_vals (snd ir)))) eligible)
      in py_head mean_threshold
           (rev (sort_key (\<lambda>ir. sum_list (abs_vals (snd ir))) (rev stable))))"

text \<open>
  The numbers of a track, and what the comment of the last step of \<open>polarize\<close> calls
  the largest absolute value being negative: a negative number whose magnitude exceeds
  that of every other number of the track.
\<close>

fun numbers :: "cell list \<Rightarrow> real list" where
  "numbers [] = []"
| "numbers (Some (Fin x) # cs) = x # numbers cs"
| "numbers (_ # cs) = numbers cs"

definition finite_values :: "track \<Rightarrow> real list" where
  "finite_values df = concat (map (\<lambda>ir. numbers (snd ir)) (df_rows df))"

definition largest_is_negative :: "track \<Rightarrow> bool" where
  "largest_is_negative df =
     (\<exists>x\<in>set (finite_values df). x < 0 \<and> (\<forall>y\<in>set (finite_values df). y \<noteq> x \<longrightarrow> \<bar>y\<bar> < \<bar>x\<bar>))"

text \<open>
  Notions used to state when a second run of \<open>polarize\<close> changes nothing. The
  comparison of the vote loop tells values of equal sign from values of opposite sign
  as long as the floats of \<open>|v| + |p|\<close> and of \<open>||v| - |p||\<close> differ; a guide row
  is decided when it holds numbers only and this is so for any two of them (a zero is
  never decided against itself). Then the votes of the row depend only on whether a
  value has the sign of the row's first value, and flipping the windows of negative
  \<open>switch_lst\<close> entries negates the votes of those windows.
\<close>

definition comparison_decided :: "real \<Rightarrow> real \<Rightarrow> bool" where
  "comparison_decided v p = (round_double (\<bar>v\<bar> + \<bar>p\<bar>) \<noteq> round_double \<bar>\<bar>v\<bar> - \<bar>p\<bar>\<bar>)"

fun nonzero_number :: "cell \<Rightarrow> bool" where
  "nonzero_number (Some (Fin x)) = (x \<noteq> 0)"
| "nonzero_number _ = False"

fun is_number :: "cell \<Rightarrow> bool" where
  "is_number (Some (Fin x)) = True"
| "is_number _ = False"

definition decided_row :: "cell list \<Rightarrow> bool" where
  "decided_row cs =
     (list_all is_number cs
      \<and> (\<forall>v\<in>set (numbers cs). \<forall>p\<in>set (numbers cs). comparison_decided v p))"

definition sign_votes :: "real \<Rightarrow> cell list \<Rightarrow> int list" where
  "sign_votes a cs = map (\<lambda>c. if na0 c * a < 0 then 1 else - 1) cs"

fun row_sign_votes :: "cell list \<Rightarrow> int list" where
  "row_sign_votes [] = []"
| "row_sign_votes (c # cs) = 0 # sign_votes (na0 c) cs"

fun flip_votes :: "int list \<Rightarrow> int list \<Rightarrow> int list" where
  "flip_votes (s # ss) (v # vs) = (if s < 0 then - v else v) # flip_votes ss vs"
| "flip_votes _ vs = vs"

section \<open>windowed\_pca.py: writing and reading the tables\<close>













section \<open>Properties\<close>

subsection \<open>Rounding to binary64\<close>

lemma round_half_even_of_int: "round_half_even (of_int n) = n"
  by (simp add: round_half_even_def)

lemma round_half_even_range:
  "of_int \<lfloor>y\<rfloor> \<le> (of_int (round_half_even y) :: real) \<and> round_half_even y \<le> \<lfloor>y\<rfloor> + 1"
  by (auto simp: round_half_even_def)

lemma round_half_even_mono: "a \<le> b \<Longrightarrow> round_half_even a \<le> round_half_even b"
proof -
  assume ab: "a \<le> b"
  then have f: "\<lfloor>a\<rfloor> \<le> \<lfloor>b\<rfloor>" by (rule floor_mono)
  show ?thesis
  proof (cases "\<lfloor>a\<rfloor> = \<lfloor>b\<rfloor>")
    case True
    with ab show ?thesis by (auto simp: round_half_even_def)
  next
    case False
    with f have "\<lfloor>a\<rfloor> + 1 \<le> \<lfloor>b\<rfloor>" by simp
    moreover have "round_half_even a \<le> \<lfloor>a\<rfloor> + 1" using round_half_even_range by blast
    moreover have "\<lfloor>b\<rfloor> \<le> round_half_even b" using round_half_even_range [of b] by simp
    ultimately show ?thesis by linarith
  qed
qed

lemma round_half_even_uminus: "round_half_even (- y) = - round_half_even y"
proof (cases "y \<in> \<int>")
  case True
  then obtain n where "y = of_int n" by (auto elim: Ints_cases)
  then show ?thesis
    using round_half_even_of_int [of n] round_half_even_of_int [of "- n"] by simp
next
  case False
  have ne: "y \<noteq> of_int \<lfloor>y\<rfloor>" using False by (metis Ints_of_int)
  then have fl: "\<lfloor>- y\<rfloor> = - \<lfloor>y\<rfloor> - 1"
    by (simp add: floor_minus ceiling_altdef)
  have "of_int \<lfloor>y\<rfloor> < y" using ne of_int_floor_le [of y] by linarith
  then show ?thesis
    unfolding round_half_even_def fl by auto
qed

lemma binade_bounds:
  assumes "x \<noteq> 0"
  shows "2 powr of_int (binade x) \<le> \<bar>x\<bar>" and "\<bar>x\<bar> < 2 powr (of_int (binade x) + 1)"
proof -
  have "0 < \<bar>x\<bar>" using assms by simp
  from floor_log_eq_powr_iff [OF this, of 2 "binade x"]
  show "2 powr of_int (binade x) \<le> \<bar>x\<bar>" and "\<bar>x\<bar> < 2 powr (of_int (binade x) + 1)"
    by (simp_all add: binade_def)
qed

lemma binade_eq:
  "0 < x \<Longrightarrow> 2 powr of_int k \<le> x \<Longrightarrow> x < 2 powr (of_int k + 1) \<Longrightarrow> binade x = k"
  using floor_log_eq_powr_iff [of x 2 k] by (simp add: binade_def)

lemma binade_uminus: "binade (- x) = binade x"
  by (simp add: binade_def)

lemma ulp_uminus: "ulp (- x) = ulp x"
  by (simp add: ulp_def binade_uminus)

lemma ulp_pos: "0 < ulp x"
  by (simp add: ulp_def)

lemma round_double_uminus: "round_double (- x) = - round_double x"
  by (simp add: round_double_def ulp_uminus round_half_even_uminus)

lemma round_double_0: "round_double 0 = 0"
  by (simp add: round_double_def)

lemma scaled_bounds:
  assumes "0 < x"
  shows "2 ^ 52 \<le> x / ulp x" and "x / ulp x < 2 ^ 53"
proof -
  have x: "x \<noteq> 0" "\<bar>x\<bar> = x" using assms by simp_all
  have u: "ulp x = 2 powr of_int (binade x) / 2 ^ 52"
    by (simp add: ulp_def powr_diff)
  have p: "(0::real) < 2 powr of_int (binade x)" by simp
  from binade_bounds [OF x(1)] have
    lo: "2 powr of_int (binade x) \<le> x" and hi: "x < 2 powr of_int (binade x) * 2"
    by (simp_all add: x(2) powr_add)
  from lo p show "2 ^ 52 \<le> x / ulp x" by (simp add: u field_simps)
  from hi p show "x / ulp x < 2 ^ 53" by (simp add: u field_simps)
qed

lemma round_double_pos_bounds:
  assumes "0 < x"
  shows "2 powr of_int (binade x) \<le> round_double x"
    and "round_double x \<le> 2 powr (of_int (binade x) + 1)"
proof -
  have u: "ulp x = 2 powr of_int (binade x) / 2 ^ 52"
    by (simp add: ulp_def powr_diff)
  have p: "(0::real) < 2 powr of_int (binade x)" by simp
  have "round_half_even (2 ^ 52) \<le> round_half_even (x / ulp x)"
    using scaled_bounds(1) [OF assms] by (rule round_half_even_mono)
  moreover have "round_half_even (2 ^ 52) = 2 ^ 52"
    using round_half_even_of_int [of "2 ^ 52"] by simp
  ultimately have lo: "(2 ^ 52 :: real) \<le> of_int (round_half_even (x / ulp x))"
    by (metis of_int_le_iff of_int_numeral of_int_power)
  have "round_half_even (x / ulp x) \<le> round_half_even (2 ^ 53)"
    using scaled_bounds(2) [OF assms] by (intro round_half_even_mono) simp
  moreover have "round_half_even (2 ^ 53) = 2 ^ 53"
    using round_half_even_of_int [of "2 ^ 53"] by simp
  ultimately have hi: "of_int (round_half_even (x / ulp x)) \<le> (2 ^ 53 :: real)"
    by (metis of_int_le_iff of_int_numeral of_int_power)
  from lo p assms show "2 powr of_int (binade x) \<le> round_double x"
    by (simp add: round_double_def u field_simps)
  from hi p assms show "round_double x \<le> 2 powr (of_int (binade x) + 1)"
    by (simp add: round_double_def u powr_add field_simps)
qed

lemma round_double_pos: "0 < x \<Longrightarrow> 0 < round_double x"
  using round_double_pos_bounds(1) [of x] powr_gt_zero [of 2 "of_int (binade x)"]
  by linarith

lemma round_double_mono_pos:
  assumes "0 < x" and "x \<le> y"
  shows "round_double x \<le> round_double y"
proof -
  have y: "0 < y" using assms by simp
  have "log 2 x \<le> log 2 y" using assms by simp
  then have b: "binade x \<le> binade y"
    using assms y by (simp add: binade_def floor_mono)
  show ?thesis
  proof (cases "binade x = binade y")
    case True
    then have u: "ulp x = ulp y" by (simp add: ulp_def)
    have "x / ulp y \<le> y / ulp y" using assms(2) ulp_pos [of y] by (simp add: divide_right_mono)
    then have "round_half_even (x / ulp y) \<le> round_half_even (y / ulp y)"
      by (rule round_half_even_mono)
    then have "(of_int (round_half_even (x / ulp y)) :: real) \<le> of_int (round_half_even (y / ulp y))"
      by simp
    with ulp_pos [of y] assms y show ?thesis
      by (simp add: round_double_def u mult_right_mono)
  next
    case False
    with b have "binade x + 1 \<le> binade y" by simp
    then have "(of_int (binade x) + 1 :: real) \<le> of_int (binade y)" by linarith
    then have "(2::real) powr (of_int (binade x) + 1) \<le> 2 powr of_int (binade y)" by simp
    with round_double_pos_bounds(2) [OF assms(1)] round_double_pos_bounds(1) [OF y]
    show ?thesis by linarith
  qed
qed

lemma round_double_mono: "x \<le> y \<Longrightarrow> round_double x \<le> round_double y"
proof -
  assume xy: "x \<le> y"
  consider "0 < x" | "x \<le> 0" "0 \<le> y" | "y < 0" by linarith
  then show ?thesis
  proof cases
    case 1
    then show ?thesis using xy by (rule round_double_mono_pos)
  next
    case 2
    have "round_double x \<le> 0"
    proof (cases "x = 0")
      case True then show ?thesis by (simp add: round_double_0)
    next
      case False
      with 2 have "0 < - x" by simp
      from round_double_pos [OF this] show ?thesis by (simp add: round_double_uminus)
    qed
    moreover have "0 \<le> round_double y"
    proof (cases "y = 0")
      case True then show ?thesis by (simp add: round_double_0)
    next
      case False
      with 2 have "0 < y" by simp
      from round_double_pos [OF this] show ?thesis by simp
    qed
    ultimately show ?thesis by linarith
  next
    case 3
    then have "0 < - y" "- y \<le> - x" using xy by simp_all
    from round_double_mono_pos [OF this] show ?thesis by (simp add: round_double_uminus)
  qed
qed

lemma round_double_abs: "\<bar>round_double x\<bar> = round_double \<bar>x\<bar>"
proof (cases "0 \<le> x")
  case True
  with round_double_mono [of 0 x] show ?thesis by (simp add: round_double_0)
next
  case False
  then have "x \<le> 0" by simp
  with round_double_mono [of x 0] False show ?thesis
    by (simp add: round_double_0 round_double_uminus abs_if)
qed

lemma round_double_eq_0: "(round_double x = 0) = (x = 0)"
proof (cases "x = 0")
  case True then show ?thesis by (simp add: round_double_0)
next
  case False
  then have "0 < \<bar>x\<bar>" by simp
  from round_double_pos [OF this] have "round_double \<bar>x\<bar> \<noteq> 0" by simp
  with False show ?thesis by (simp add: round_double_abs [symmetric])
qed

lemma round_double_of_int:
  assumes "\<bar>m\<bar> < 2 ^ 53"
  shows "round_double (of_int m) = of_int m"
proof (cases "m = 0")
  case True then show ?thesis by (simp add: round_double_0)
next
  case False
  define x :: real where "x = of_int m"
  define e where "e = binade x"
  have x0: "x \<noteq> 0" using False by (simp add: x_def)
  have "\<bar>x\<bar> < 2 ^ 53" using assms unfolding x_def
    by (metis of_int_abs of_int_less_iff of_int_numeral of_int_power)
  moreover have "(2::real) powr 53 = 2 ^ 53" by simp
  ultimately have "\<bar>x\<bar> < 2 powr 53" by (simp only:)
  with binade_bounds(1) [OF x0] have "2 powr of_int e < (2::real) powr 53"
    unfolding e_def by (rule le_less_trans)
  then have "of_int e < (53::real)" by (simp only: powr_less_cancel_iff one_less_numeral_iff semiring_norm)
  then have e: "e \<le> 52" by linarith
  define k where "k = nat (52 - e)"
  have k: "of_int (52 - e) = (of_nat k :: real)" using e by (simp add: k_def)
  have "ulp x = 2 powr (- of_int (52 - e))" by (simp add: ulp_def e_def)
  also have "\<dots> = 1 / 2 ^ k" unfolding k by (simp add: powr_minus powr_realpow inverse_eq_divide)
  finally have u: "ulp x = 1 / 2 ^ k" .
  have "x / ulp x = of_int (m * 2 ^ k)" unfolding u by (simp add: x_def)
  then have "round_half_even (x / ulp x) = m * 2 ^ k" by (simp only: round_half_even_of_int)
  then have "round_double x = of_int (m * 2 ^ k) * (1 / 2 ^ k)"
    using x0 unfolding round_double_def u by simp
  then show ?thesis by (simp add: x_def)
qed

lemma round_double_numeral:
  "(numeral n :: int) < 2 ^ 53 \<Longrightarrow> round_double (numeral n) = numeral n"
  using round_double_of_int [of "numeral n"] by simp

lemma round_double_neg_numeral:
  "(numeral n :: int) < 2 ^ 53 \<Longrightarrow> round_double (- numeral n) = - numeral n"
  by (simp add: round_double_uminus round_double_numeral)

lemma round_double_1: "round_double 1 = 1"
  using round_double_of_int [of 1] by simp

lemma round_double_eqI:
  assumes "0 < x" and "2 powr of_int k \<le> x" and "x < 2 powr (of_int k + 1)"
    and "round_half_even (x / 2 powr (of_int k - 52)) = m"
  shows "round_double x = of_int m * 2 powr (of_int k - 52)"
proof -
  have "binade x = k" using assms(1-3) by (rule binade_eq)
  with assms(1,4) show ?thesis by (simp add: round_double_def ulp_def)
qed

lemma round_double_above_1: "round_double (1 + 1 / 2 ^ 60) = 1"
proof -
  have "round_double (1 + 1 / 2 ^ 60) = of_int (2 ^ 52) * 2 powr (of_int 0 - 52)"
  proof (rule round_double_eqI)
    show "round_half_even ((1 + 1 / 2 ^ 60) / 2 powr (of_int 0 - 52)) = 2 ^ 52"
      by (simp add: powr_minus round_half_even_def)
  qed simp_all
  then show ?thesis by (simp add: powr_minus)
qed

lemma round_double_below_1: "round_double (1 - 1 / 2 ^ 60) = 1"
proof -
  have "round_double (1 - 1 / 2 ^ 60) = of_int (2 ^ 53) * 2 powr (of_int (- 1) - 52)"
  proof (rule round_double_eqI)
    show "round_half_even ((1 - 1 / 2 ^ 60) / 2 powr (of_int (- 1) - 52)) = 2 ^ 53"
      by (simp add: powr_minus round_half_even_def)
  qed (simp_all add: powr_minus)
  then show ?thesis by (simp add: powr_minus)
qed

lemmas round_double_simps =
  round_double_0 round_double_1 round_double_numeral round_double_neg_numeral round_double_uminus


subsection \<open>Vote computation\<close>

lemma vote_loop_spec:
  "vote_loop (Fin prev) out (map (map_option Fin) vs) = out @ spec_votes_from prev vs"
proof (induction vs arbitrary: prev out)
  case Nil
  then show ?case by simp
next
  case (Cons v vs)
  then show ?case by (cases v) simp_all
qed

text \<open>
  The loop tests \<open>window == None\<close>. A NaN is a float to it: every comparison with
  NaN is false, so NaN gets the vote -1 and becomes the reference.
\<close>

lemma vote_loop_nan:
  "vote_loop prev out (Some NaN # rest) = vote_loop NaN (out @ [- 1]) rest"
  by simp

lemma map_Fin_fin_val:
  "Some NaN \<notin> set r \<Longrightarrow> map (map_option Fin) (map (map_option fin_val) r) = r"
proof (induction r)
  case Nil
  then show ?case by simp
next
  case (Cons c r)
  then show ?case by (cases c rule: isna.cases) simp_all
qed

lemma row_votes_spec:
  assumes "r \<noteq> []" and "Some NaN \<notin> set r"
  shows "row_votes r = Inr (spec_votes (map (map_option fin_val) r))"
proof -
  define vs where "vs = map (map_option fin_val) r"
  have r: "r = map (map_option Fin) vs"
    using map_Fin_fin_val [OF assms(2)] by (simp add: vs_def)
  from assms(1) obtain v0 rest where vs: "vs = v0 # rest"
    by (cases vs) (auto simp: vs_def)
  have "row_votes (map (map_option Fin) vs) = Inr (spec_votes vs)"
    unfolding vs row_votes_def using vote_loop_spec [of _ "[0]" rest]
    by (cases v0) simp_all
  then have "row_votes r = Inr (spec_votes vs)" by (simp only: r [symmetric])
  then show ?thesis by (simp only: vs_def)
qed

lemma rows_votes_spec:
  "list_all (\<lambda>ir. snd ir \<noteq> [] \<and> Some NaN \<notin> set (snd ir)) g \<Longrightarrow>
     rows_votes g = Inr (map (\<lambda>ir. spec_votes (map (map_option fin_val) (snd ir))) g)"
  by (induction g) (simp_all add: row_votes_spec)

text \<open>
  The differences are rounded before they are compared. For the row \<open>[-2^-60, 1]\<close>
  both \<open>1 - (-2^-60)\<close> and \<open>1 - 2^-60\<close> round to 1, the comparison is false and the
  second window votes -1, although its value and the reference are of opposite sign.
\<close>

lemma row_votes_rounding:
  "row_votes [Some (Fin (- (1 / 2 ^ 60))), Some (Fin 1)] = Inr [0, - 1]"
proof -
  have a: "round_double (1 - - (1 / 2 ^ 60)) = 1"
    using round_double_above_1 by simp
  have b: "round_double (1 - - (1 / 2 ^ 60) * - 1) = 1"
    using round_double_below_1 by simp
  show ?thesis
    unfolding row_votes_def by (simp only: list.case option.case vote_loop.simps fsub.simps
        fmul.simps fabs.simps fgt.simps a b) simp
qed

subsection \<open>The PCA step and the result containers\<close>

lemma pca_skipped_window:
  assumes "win0 = g # others" and "length win0 < min_var_per_w"
  shows "pca allel_pca min_var_per_w pc win0 w_start w_size st =
           Inr (append_output pc (w_mid_of w_start w_size)
                 (replicate (length (tl g)) None, replicate (length (tl g)) None, None, None, length win0)
                 (st\<lparr> stderr := stderr st @ [skipped_notice w_start w_size (length win0) min_var_per_w] \<rparr>))"
  using assms by (simp add: pca_def Let_def)

lemma append_output_stats:
  "w_stats_lst (append_output pc w_mid (out0, out1, out2, out3, out4) st)
     = w_stats_lst st @ [(out2, out3, out4)]
   \<and> w_mid_lst (append_output pc w_mid (out0, out1, out2, out3, out4) st) = w_mid_lst st @ [w_mid]
   \<and> stderr (append_output pc w_mid (out0, out1, out2, out3, out4) st) = stderr st"
  by (simp add: append_output_def)

lemma append_output_coordinates:
  "w_pca_lst (append_output pc w_mid (out0, out1, out2, out3, out4) st)
     = (if pc = PyInt 1 then w_pca_lst st @ [out0] else w_pca_lst st)"
  by (simp add: append_output_def)

text \<open>
  C3. A window without any variant is below every positive threshold, and \<open>pca()\<close>
  returns no result for it: after printing the notice it raises IndexError.
\<close>

theorem pca_empty_window_raises:
  "pca allel_pca min_var_per_w_default pc [] w_start w_size st = Inl IndexError"
  by (simp add: pca_def min_var_per_w_default_def)

text \<open>
  C4. With \<open>pc = 2\<close>, as with any \<open>pc\<close> that is not the integer 1 (a string, for
  one), a window's statistics row is appended and its coordinate vector is not:
  \<open>w_pca_lst\<close> stays as it was. Here the engine returns PC1 = [1, 2] and PC2 = [3, 4]
  for the two samples of a window of one variant, under a threshold of 1.
\<close>

theorem pca_pc2_appends_no_coordinates:
  "pca (\<lambda>win. ([Fin 1, Fin 2], [Fin 3, Fin 4], Fin (1/2), Fin (1/4))) 1 (PyInt 2)
       [[100, 0, 2]] 1 1000 empty_results
     = Inr \<lparr> w_mid_lst = [500], w_pca_lst = [],
             w_stats_lst = [(Some (Fin 50), Some (Fin 25), 1)], stderr = [] \<rparr>
   \<and> pca (\<lambda>win. ([Fin 1, Fin 2], [Fin 3, Fin 4], Fin (1/2), Fin (1/4))) 1 (PyStr ''1'')
       [[100, 0, 2]] 1 1000 empty_results
     = Inr \<lparr> w_mid_lst = [500], w_pca_lst = [],
             w_stats_lst = [(Some (Fin 50), Some (Fin 25), 1)], stderr = [] \<rparr>
   \<and> pca (\<lambda>win. ([Fin 1, Fin 2], [Fin 3, Fin 4], Fin (1/2), Fin (1/4))) 1 (PyInt 1)
       [[100, 0, 2]] 1 1000 empty_results
     = Inr \<lparr> w_mid_lst = [500], w_pca_lst = [[Some (Fin 1), Some (Fin 2)]],
             w_stats_lst = [(Some (Fin 50), Some (Fin 25), 1)], stderr = [] \<rparr>"
  by (simp add: pca_def append_output_def empty_results_def w_mid_of_def)

lemma pca_skipped_example:
  "pca allel_pca min_var_per_w_default (PyInt 1) [[100, 0, 2], [180, 1, 1]] 1 1000 empty_results
     = Inr \<lparr> w_mid_lst = [500], w_pca_lst = [[None, None]],
             w_stats_lst = [(None, None, 2)],
             stderr = [''[INFO] Skipped window 1-1000 with 2 variants (threshold is 50 variants per window)''] \<rparr>"
  by (simp add: pca_def append_output_def empty_results_def w_mid_of_def
      min_var_per_w_default_def skipped_notice_def str_int_def str_nat.simps)

subsection \<open>Polarization: auxiliary facts\<close>

lemmas polarize_eval_defs =
  polarize_def select_guides_def truthy_def loc_def var_shortlist_def sum_shortlist_def
  var_series_def sum_series_def
  dropna_axis1_def complete_cols_def select_cols_def var_ddof1_def sort_values_asc_def
  sort_values_desc_def py_head_def switch_lst_of_def row_votes_def flip_windows_def
  global_flip_def to_numpy_na0_def negate_track_def round_double_simps power2_eq_square

lemma length_vote_loop: "length (vote_loop prev out cs) = length out + length cs"
  by (induction prev out cs rule: vote_loop.induct) auto

lemma length_row_votes: "row_votes r = Inr out \<Longrightarrow> length out = length r"
  by (auto simp: row_votes_def length_vote_loop split: list.splits)

lemma flip_cells_length: "length (flip_cells sw cs) = length cs"
  by (induction sw cs rule: flip_cells.induct) auto

lemma flip_cells_nth:
  "j < length sw \<Longrightarrow> j < length cs \<Longrightarrow>
     flip_cells sw cs ! j = (if sw ! j < 0 then cneg (cs ! j) else cs ! j)"
proof (induction sw cs arbitrary: j rule: flip_cells.induct)
  case (1 v vals c cs)
  then show ?case by (cases j) auto
qed auto

lemma isna_cneg: "isna (cneg c) = isna c"
  by (cases c rule: isna.cases) auto

lemma same_or_negated_refl: "same_or_negated c c"
  by (simp add: same_or_negated_def)

lemma cneg_cneg: "cneg (cneg c) = c \<or> cneg (cneg c) = cneg c"
  by (cases c rule: isna.cases) auto

lemma same_or_negated_cneg: "same_or_negated c c' \<Longrightarrow> same_or_negated c (cneg c')"
  using cneg_cneg [of c] by (auto simp: same_or_negated_def isna_cneg)

lemma flip_cells_rel: "list_all2 same_or_negated cs (flip_cells sw cs)"
proof (induction sw cs rule: flip_cells.induct)
  case (1 v vals c cs)
  then show ?case by (simp add: same_or_negated_refl same_or_negated_cneg)
qed (simp_all add: list_all2_refl same_or_negated_refl)

lemma map_cneg_rel:
  "list_all2 same_or_negated cs cs' \<Longrightarrow> list_all2 same_or_negated cs (map cneg cs')"
  by (induction cs cs' rule: list_all2_induct) (simp_all add: same_or_negated_cneg)

lemma flip_windows_rel:
  "list_all2 (list_all2 same_or_negated) (map snd (df_rows df)) (map snd (df_rows (flip_windows sw df)))"
  by (simp add: flip_windows_def list_all2_map1 list_all2_map2 list_all2_refl flip_cells_rel comp_def)

lemma negate_track_rel:
  assumes "list_all2 (list_all2 same_or_negated) (map snd (df_rows df)) (map snd (df_rows df1))"
  shows "list_all2 (list_all2 same_or_negated) (map snd (df_rows df)) (map snd (df_rows (negate_track df1)))"
proof -
  have "list_all2 (list_all2 same_or_negated) xs ys \<Longrightarrow>
          list_all2 (list_all2 same_or_negated) xs (map (map cneg) ys)" for xs ys
    by (induction xs ys rule: list_all2_induct) (simp_all add: map_cneg_rel)
  from this [OF assms] show ?thesis by (simp add: negate_track_def comp_def)
qed

lemma global_flip_cases:
  "global_flip df = Inr df' \<Longrightarrow> df' = df \<or> df' = negate_track df"
  by (auto simp: global_flip_def split: list.splits if_splits)

lemma polarize_steps:
  assumes "polarize df vt mt gs = Inr df'"
  obtains guide rows_lst sw where
    "select_guides df vt mt gs = Inr guide" "rows_votes guide = Inr rows_lst"
    "switch_lst_of rows_lst = Inr sw" "global_flip (flip_windows sw df) = Inr df'"
  using assms by (auto simp: polarize_def split: sum.splits)

lemma switch_lst_nth:
  assumes "switch_lst_of rows_lst = Inr sw" and "rows_lst = out # others" and "j < length out"
  shows "length sw = length out" and "sw ! j = sum_list (map (\<lambda>votes. votes ! j) rows_lst)"
  using assms by (auto simp: switch_lst_of_def)

lemma rows_votes_hd:
  assumes "rows_votes guide = Inr rows_lst" and "switch_lst_of rows_lst = Inr sw"
  obtains ir others out outs where "guide = ir # others" "rows_lst = out # outs" "length out = length (snd ir)"
  using assms
  by (cases guide) (auto simp: switch_lst_of_def length_row_votes split: sum.splits)

lemma loc_subset: "loc rs labels = Inr g \<Longrightarrow> set g \<subseteq> set rs"
  by (auto simp: loc_def split: if_splits)

lemma select_guides_subset:
  "select_guides df vt mt gs = Inr g \<Longrightarrow> set g \<subseteq> set (df_rows df)"
  by (auto simp: select_guides_def split: if_splits pyval.splits sum.splits dest!: loc_subset)

lemma guide_rows_length:
  assumes "wf_track df" and "select_guides df vt mt gs = Inr g"
  shows "list_all (\<lambda>ir. length (snd ir) = length (df_columns df)) g"
  using select_guides_subset [OF assms(2)] assms(1)
  by (auto simp: wf_track_def list_all_iff)

subsection \<open>Polarization: the votes of the guide samples\<close>

text \<open>
  C1. Whatever guide samples \<open>polarize\<close> selects, as long as their rows have a first
  window and hold numbers and \<open>None\<close> only: the vote lists \<open>rows_lst\<close> that its loop
  collects are, row by row, the ones the rule of the specification gives (0 for the
  first window, with the reference set to its value or to 0 when it is missing; then 0
  and an unchanged reference for a missing value, +1 and reference \<open>-v\<close> when
  \<open>|v - prev| > |v - (-prev)|\<close>, and otherwise -1 and reference \<open>v\<close>; the
  differences are those of floats), and the result of \<open>polarize\<close> is computed from
  these votes. The row \<open>[1, -1, 1, 1]\<close> gives \<open>[0, +1, -1, -1]\<close>.
\<close>

theorem polarize_votes_spec:
  assumes "select_guides df var_threshold mean_threshold guide_samples = Inr guide_samples_df"
    and "list_all (\<lambda>ir. snd ir \<noteq> [] \<and> Some NaN \<notin> set (snd ir)) guide_samples_df"
  shows "rows_votes guide_samples_df
           = Inr (map (\<lambda>ir. spec_votes (map (map_option fin_val) (snd ir))) guide_samples_df)
       \<and> polarize df var_threshold mean_threshold guide_samples
           = (case switch_lst_of
                     (map (\<lambda>ir. spec_votes (map (map_option fin_val) (snd ir))) guide_samples_df) of
                Inl e \<Rightarrow> Inl e
              | Inr switch_lst \<Rightarrow> global_flip (flip_windows switch_lst df))
       \<and> rows_votes [(l, [Some (Fin 1), Some (Fin (- 1)), Some (Fin 1), Some (Fin 1)])]
           = Inr [[0, 1, - 1, - 1]]"
proof (intro conjI)
  show rv: "rows_votes guide_samples_df
           = Inr (map (\<lambda>ir. spec_votes (map (map_option fin_val) (snd ir))) guide_samples_df)"
    using assms(2) by (rule rows_votes_spec)
  show "polarize df var_threshold mean_threshold guide_samples
           = (case switch_lst_of
                     (map (\<lambda>ir. spec_votes (map (map_option fin_val) (snd ir))) guide_samples_df) of
                Inl e \<Rightarrow> Inl e
              | Inr switch_lst \<Rightarrow> global_flip (flip_windows switch_lst df))"
    by (simp add: polarize_def assms(1) rv)
  show "rows_votes [(l, [Some (Fin 1), Some (Fin (- 1)), Some (Fin 1), Some (Fin 1)])]
           = Inr [[0, 1, - 1, - 1]]"
    by (simp add: row_votes_def round_double_simps)
qed

theorem polarize_votes_spec_witness:
  "select_guides \<lparr> df_columns = [10, 20, 30],
                   df_rows = [(''g'', [Some (Fin 1), Some (Fin (- 2)), Some (Fin 3)]),
                              (''s'', [None, Some (Fin 5), Some (Fin (- 7))])] \<rparr> 1 (PyInt 1) None
     = Inr [(''g'', [Some (Fin 1), Some (Fin (- 2)), Some (Fin 3)])]
   \<and> rows_votes [(''g'', [Some (Fin 1), Some (Fin (- 2)), Some (Fin 3)])] = Inr [[0, 1, - 1]]
   \<and> polarize \<lparr> df_columns = [10, 20, 30],
                 df_rows = [(''g'', [Some (Fin 1), Some (Fin (- 2)), Some (Fin 3)]),
                            (''s'', [None, Some (Fin 5), Some (Fin (- 7))])] \<rparr> 1 (PyInt 1) None
     = Inr \<lparr> df_columns = [10, 20, 30],
             df_rows = [(''g'', [Some (Fin 1), Some (Fin (- 2)), Some (Fin (- 3))]),
                        (''s'', [None, Some (Fin 5), Some (Fin 7)])] \<rparr>"
proof -
  let ?df = "\<lparr> df_columns = [10, 20, 30],
                df_rows = [(''g'', [Some (Fin 1), Some (Fin (- 2)), Some (Fin 3)]),
                           (''s'', [None, Some (Fin 5), Some (Fin (- 7))])] \<rparr>"
  let ?g = "[(''g'', [Some (Fin 1), Some (Fin (- 2)), Some (Fin 3)])]"
  have a: "select_guides ?df 1 (PyInt 1) None = Inr ?g"
    by (simp add: polarize_eval_defs)
  have b: "list_all (\<lambda>ir. snd ir \<noteq> [] \<and> Some NaN \<notin> set (snd ir)) ?g" by simp
  from polarize_votes_spec [OF a b] a show ?thesis
    by (simp add: round_double_simps switch_lst_of_def flip_windows_def global_flip_def
        to_numpy_na0_def upt_rec)
qed

subsection \<open>Polarization: window flips\<close>

text \<open>
  C2. With the votes \<open>rows_lst\<close> of the guide rows, the track that \<open>polarize\<close>
  hands to its last step (the global flip, which gives the result) has the labels of
  the input, and the cell of any sample in window \<open>j\<close> is the cell of
  \<open>column * -1\<close> exactly when the votes of window \<open>j\<close> sum to less than zero, and
  is the unchanged cell when the sum is zero or positive. In a flipped column a number
  \<open>x\<close> becomes \<open>-x\<close> and a missing cell stays missing.
\<close>

theorem polarize_flips_negative_vote_windows:
  assumes "wf_track df"
    and "select_guides df var_threshold mean_threshold guide_samples = Inr guide_samples_df"
    and "rows_votes guide_samples_df = Inr rows_lst"
    and "polarize df var_threshold mean_threshold guide_samples = Inr df'"
  shows "(\<exists>df1. global_flip df1 = Inr df'
            \<and> df_columns df1 = df_columns df
            \<and> map fst (df_rows df1) = map fst (df_rows df)
            \<and> (\<forall>k<length (df_rows df). \<forall>j<length (df_columns df).
                  snd (df_rows df1 ! k) ! j =
                    (if sum_list (map (\<lambda>votes. votes ! j) rows_lst) < 0
                     then cneg (snd (df_rows df ! k) ! j) else snd (df_rows df ! k) ! j)))
       \<and> cneg (Some (Fin x)) = Some (Fin (- x))
       \<and> isna (cneg c) = isna c"
proof -
  from assms(2,3,4) obtain switch_lst where
    sl: "switch_lst_of rows_lst = Inr switch_lst"
    and gf: "global_flip (flip_windows switch_lst df) = Inr df'"
    by (auto simp: polarize_def split: sum.splits)
  from assms(3) sl obtain ir others out outs where
    g: "guide_samples_df = ir # others" and r: "rows_lst = out # outs"
    and l: "length out = length (snd ir)"
    by (rule rows_votes_hd)
  from guide_rows_length [OF assms(1,2)] g l
  have lo: "length out = length (df_columns df)" by simp
  have cells: "snd (df_rows (flip_windows switch_lst df) ! k) ! j =
                 (if sum_list (map (\<lambda>votes. votes ! j) rows_lst) < 0
                  then cneg (snd (df_rows df ! k) ! j) else snd (df_rows df ! k) ! j)"
    if k: "k < length (df_rows df)" and j: "j < length (df_columns df)" for k j
  proof -
    from j lo have jo: "j < length out" by simp
    have sw: "length switch_lst = length out"
      "switch_lst ! j = sum_list (map (\<lambda>votes. votes ! j) rows_lst)"
      using switch_lst_nth [OF sl r jo] by simp_all
    from assms(1) k have lr: "length (snd (df_rows df ! k)) = length (df_columns df)"
      by (simp add: wf_track_def list_all_length)
    have "flip_cells switch_lst (snd (df_rows df ! k)) ! j =
            (if switch_lst ! j < 0 then cneg (snd (df_rows df ! k) ! j) else snd (df_rows df ! k) ! j)"
      by (rule flip_cells_nth) (use sw lo lr j in simp_all)
    with k sw show ?thesis by (simp add: flip_windows_def)
  qed
  have "df_columns (flip_windows switch_lst df) = df_columns df"
    and "map fst (df_rows (flip_windows switch_lst df)) = map fst (df_rows df)"
    by (simp_all add: flip_windows_def comp_def)
  with gf cells show ?thesis
    by (intro conjI exI [of _ "flip_windows switch_lst df"]) (simp_all add: isna_cneg)
qed

theorem polarize_flips_negative_vote_windows_witness:
  "\<exists>df1. global_flip df1
           = Inr \<lparr> df_columns = [10, 20, 30],
                   df_rows = [(''g'', [Some (Fin 1), Some (Fin (- 2)), Some (Fin (- 3))]),
                              (''s'', [None, Some NaN, Some (Fin 4)])] \<rparr>
       \<and> snd (df_rows df1 ! 0) ! 1 = Some (Fin (- 2))
       \<and> snd (df_rows df1 ! 1) ! 1 = Some NaN
       \<and> snd (df_rows df1 ! 1) ! 2 = Some (Fin 4)"
proof -
  let ?df = "\<lparr> df_columns = [10, 20, 30],
                df_rows = [(''g'', [Some (Fin 1), Some (Fin 2), Some (Fin (- 3))]),
                           (''s'', [None, None, Some (Fin 4)])] \<rparr>"
  let ?g = "[(''g'', [Some (Fin 1), Some (Fin 2), Some (Fin (- 3))])]"
  let ?df' = "\<lparr> df_columns = [10, 20, 30],
                 df_rows = [(''g'', [Some (Fin 1), Some (Fin (- 2)), Some (Fin (- 3))]),
                            (''s'', [None, Some NaN, Some (Fin 4)])] \<rparr>"
  have a: "wf_track ?df" by (simp add: wf_track_def)
  have b: "select_guides ?df 1 (PyInt 1) None = Inr ?g"
    by (simp add: polarize_eval_defs)
  have c: "rows_votes ?g = Inr [[0, - 1, 1]]"
    by (simp add: row_votes_def round_double_simps)
  have d: "polarize ?df 1 (PyInt 1) None = Inr ?df'"
    by (simp add: polarize_eval_defs)
  from polarize_flips_negative_vote_windows [OF a b c d, THEN conjunct1]
  show ?thesis
  proof (elim exE conjE)
    fix df1
    assume g: "global_flip df1 = Inr ?df'"
      and cells: "\<forall>k<length (df_rows ?df). \<forall>j<length (df_columns ?df).
                  snd (df_rows df1 ! k) ! j =
                    (if sum_list (map (\<lambda>votes. votes ! j) [[0, - 1, 1 :: int]]) < 0
                     then cneg (snd (df_rows ?df ! k) ! j) else snd (df_rows ?df ! k) ! j)"
    have "snd (df_rows df1 ! 0) ! 1 = Some (Fin (- 2))"
      using cells [rule_format, of 0 1] by simp
    moreover have "snd (df_rows df1 ! 1) ! 1 = Some NaN"
      using cells [rule_format, of 1 1] by simp
    moreover have "snd (df_rows df1 ! 1) ! 2 = Some (Fin 4)"
      using cells [rule_format, of 1 2] by simp
    ultimately show ?thesis using g by (intro exI [of _ df1] conjI)
  qed
qed

subsection \<open>Polarization: guide samples given by the caller\<close>

text \<open>
  C6. With guide samples supplied and the integer \<open>mean_threshold\<close> of the settings,
  \<open>polarize\<close> raises AttributeError whatever the track and the samples are. With a
  string as \<open>mean_threshold\<close> the labels are read from that string: a label of it
  that is not in the index raises KeyError, and otherwise its rows are the guide rows,
  not those of \<open>guide_samples\<close>. The call in \<open>main()\<close> raises TypeError.
\<close>

theorem polarize_ignores_guide_samples:
  "polarize w_pca_df var_threshold (PyInt k) (Some (c # cs)) = Inl AttributeError
   \<and> polarize \<lparr> df_columns = [10, 20],
                 df_rows = [(''a'', [Some (Fin 1), Some (Fin 2)]), (''b'', [Some (Fin 3), Some (Fin (- 4))])] \<rparr>
        2 (PyStr ''zz'') (Some ''a'') = Inl KeyError
   \<and> select_guides \<lparr> df_columns = [10, 20],
                 df_rows = [(''a'', [Some (Fin 1), Some (Fin 2)]), (''b'', [Some (Fin 3), Some (Fin (- 4))])] \<rparr>
        2 (PyStr ''b'') (Some ''a'') = Inr [(''b'', [Some (Fin 3), Some (Fin (- 4))])]
   \<and> main_polarize w_pca_df mean_threshold guide_samples = Inl TypeError"
  by (simp add: polarize_def select_guides_def truthy_def loc_def main_polarize_def call_polarize_def)

subsection \<open>Polarization: shape of the result\<close>

text \<open>
  C10. A track returned by \<open>polarize\<close> has the column labels and the row labels of
  its input, in the same order, and each of its cells is the input cell or the cell of
  \<open>column * -1\<close>, missing exactly where the input cell is missing.
\<close>

theorem polarize_preserves_shape:
  assumes "polarize df var_threshold mean_threshold guide_samples = Inr df'"
  shows "df_columns df' = df_columns df
       \<and> map fst (df_rows df') = map fst (df_rows df)
       \<and> list_all2 (list_all2 same_or_negated) (map snd (df_rows df)) (map snd (df_rows df'))"
proof -
  from assms obtain sw where g: "global_flip (flip_windows sw df) = Inr df'"
    by (rule polarize_steps)
  then consider "df' = flip_windows sw df" | "df' = negate_track (flip_windows sw df)"
    using global_flip_cases by blast
  then show ?thesis
  proof cases
    case 1
    then show ?thesis using flip_windows_rel [of df sw]
      by (simp add: flip_windows_def comp_def)
  next
    case 2
    then show ?thesis using negate_track_rel [OF flip_windows_rel [of df sw]]
      by (simp add: flip_windows_def negate_track_def comp_def)
  qed
qed

theorem polarize_preserves_shape_witness:
  "polarize \<lparr> df_columns = [10, 20],
              df_rows = [(''g'', [Some (Fin 1), Some (Fin 2)]), (''s'', [None, Some (Fin (- 7))])] \<rparr>
            1 (PyInt 1) None
     = Inr \<lparr> df_columns = [10, 20],
             df_rows = [(''g'', [Some (Fin 1), Some (Fin (- 2))]), (''s'', [None, Some (Fin 7)])] \<rparr>
   \<and> list_all2 (list_all2 same_or_negated)
        [[Some (Fin 1), Some (Fin 2)], [None, Some (Fin (- 7))]]
        [[Some (Fin 1), Some (Fin (- 2))], [None, Some (Fin 7)]]"
proof -
  have h: "polarize \<lparr> df_columns = [10, 20],
              df_rows = [(''g'', [Some (Fin 1), Some (Fin 2)]), (''s'', [None, Some (Fin (- 7))])] \<rparr>
            1 (PyInt 1) None
     = Inr \<lparr> df_columns = [10, 20],
             df_rows = [(''g'', [Some (Fin 1), Some (Fin (- 2))]), (''s'', [None, Some (Fin 7)])] \<rparr>"
    by (simp add: polarize_eval_defs)
  from polarize_preserves_shape [OF h] h show ?thesis by simp
qed

subsection \<open>Polarization: automatic guide samples\<close>

lemma py_head_nonneg: "0 \<le> k \<Longrightarrow> py_head k xs = take (nat k) xs"
  by (simp add: py_head_def)

lemma set_py_head: "set (py_head k xs) \<subseteq> set xs"
  by (auto simp: py_head_def dest: in_set_takeD)

lemma sort_values_asc_mset: "mset (sort_values_asc s) = mset s"
proof -
  have "mset (filter (\<lambda>iv. snd iv \<noteq> NaN) s) + mset (filter (\<lambda>iv. \<not> snd iv \<noteq> NaN) s) = mset s"
    using multiset_partition [of "mset s" "\<lambda>iv. snd iv \<noteq> NaN"] by simp
  then show ?thesis by (simp add: sort_values_asc_def)
qed

lemma nan_last_append:
  assumes "sorted_wrt (\<lambda>a b. fin_val (snd a) \<le> fin_val (snd b)) xs"
    and "\<And>a. a \<in> set xs \<Longrightarrow> snd a \<noteq> NaN"
    and "\<And>b. b \<in> set ys \<Longrightarrow> snd b = NaN"
  shows "sorted_wrt (\<lambda>a b. nan_last_le (snd a) (snd b)) (xs @ ys)"
proof -
  have 1: "sorted_wrt (\<lambda>a b. nan_last_le (snd a) (snd b)) xs"
    using assms(1) by (rule sorted_wrt_mono_rel [rotated]) (simp add: nan_last_le_def assms(2))
  have "sorted_wrt (\<lambda>a b. True) ys" by simp
  then have 2: "sorted_wrt (\<lambda>a b. nan_last_le (snd a) (snd b)) ys"
    by (rule sorted_wrt_mono_rel [rotated]) (simp add: nan_last_le_def assms(3))
  have 3: "\<forall>x\<in>set xs. \<forall>y\<in>set ys. nan_last_le (snd x) (snd y)"
    by (simp add: nan_last_le_def assms(3))
  from 1 2 3 show ?thesis by (simp only: sorted_wrt_append simp_thms)
qed

lemma sort_values_asc_sorted:
  "sorted_wrt (\<lambda>a b. nan_last_le (snd a) (snd b)) (sort_values_asc s)"
  unfolding sort_values_asc_def
proof (rule nan_last_append)
  have "sorted (map (\<lambda>iv. fin_val (snd iv)) (sort_key (\<lambda>iv. fin_val (snd iv)) (filter (\<lambda>iv. snd iv \<noteq> NaN) s)))"
    by (rule sorted_sort_key)
  then show "sorted_wrt (\<lambda>a b. fin_val (snd a) \<le> fin_val (snd b))
     (sort_key (\<lambda>iv. fin_val (snd iv)) (filter (\<lambda>iv. snd iv \<noteq> NaN) s))"
    by (simp only: sorted_map)
qed simp_all

lemma sort_values_desc_mset: "mset (sort_values_desc s) = mset s"
  by (simp add: sort_values_desc_def)

lemma sort_values_desc_sorted: "sorted_wrt (\<lambda>a b. snd a \<ge> snd b) (sort_values_desc s)"
proof -
  have "sorted (map snd (sort_key snd (rev s)))" by (rule sorted_sort_key)
  then have "sorted_wrt (\<lambda>a b. snd a \<le> snd b) (sort_key snd (rev s))"
    by (simp add: sorted_map)
  then show ?thesis by (simp add: sort_values_desc_def sorted_wrt_rev)
qed

lemma map_fst_dropna: "map fst (dropna_axis1 n rs) = map fst rs"
  by (simp add: dropna_axis1_def comp_def)

lemma map_fst_var_series: "map fst (var_series df) = map fst (df_rows df)"
  by (simp add: var_series_def map_fst_dropna comp_def)

lemma map_fst_sum_series: "map fst (sum_series n g) = map fst g"
  by (simp add: sum_series_def map_fst_dropna comp_def)

lemma set_var_shortlist: "set (var_shortlist df vt) \<subseteq> set (map fst (df_rows df))"
proof -
  have "set (map fst (sort_values_asc (var_series df))) = set (map fst (var_series df))"
    using sort_values_asc_mset [of "var_series df"] by (metis mset_map set_mset_mset)
  then show ?thesis
    unfolding var_shortlist_def using set_py_head map_fst_var_series by metis
qed

lemma set_sum_shortlist: "set (sum_shortlist n g k) \<subseteq> set (map fst g)"
proof -
  have "set (map fst (sort_values_desc (sum_series n g))) = set (map fst (sum_series n g))"
    using sort_values_desc_mset [of "sum_series n g"] by (metis mset_map set_mset_mset)
  then show ?thesis
    unfolding sum_shortlist_def using set_py_head map_fst_sum_series by metis
qed

lemma loc_ok: "set labels \<subseteq> set (map fst rs) \<Longrightarrow>
    loc rs labels = Inr (concat (map (\<lambda>l. filter (\<lambda>ir. fst ir = l) rs) labels))"
  by (auto simp: loc_def list_all_iff)

lemma var_series_unfold:
  "var_series df =
     map (\<lambda>ir. (fst ir, var_ddof1 (abs_vals
            (select_cols (complete_cols (length (df_columns df)) (map snd (df_rows df))) (snd ir)))))
         (df_rows df)"
  by (simp add: var_series_def dropna_axis1_def comp_def)

lemma sum_series_unfold:
  "sum_series n g =
     map (\<lambda>ir. (fst ir, sum_list (abs_vals (select_cols (complete_cols n (map snd g)) (snd ir))))) g"
  by (simp add: sum_series_def dropna_axis1_def comp_def)

text \<open>
  C5, as the code has it. Without supplied guide samples (and with non-negative
  thresholds) the selection always succeeds, and: every sample of the track gets a
  variance, that of the absolute values of its row in the windows where no sample of the
  track is missing; the shortlist is the first \<open>var_threshold\<close> labels of that series
  rearranged in ascending order (NaN last); the rows of the shortlist get the sum of their
  absolute values in the windows where no shortlisted sample is missing; the guide
  samples are the first \<open>mean_threshold\<close> labels of that series rearranged in
  descending order.
\<close>

theorem automatic_guide_selection:
  assumes "\<not> truthy guide_samples" and "0 \<le> var_threshold" and "0 \<le> k"
  shows "\<exists>guide_samples_df guide.
      var_series df =
        map (\<lambda>ir. (fst ir, var_ddof1 (abs_vals
               (select_cols (complete_cols (length (df_columns df)) (map snd (df_rows df))) (snd ir)))))
            (df_rows df)
    \<and> mset (sort_values_asc (var_series df)) = mset (var_series df)
    \<and> sorted_wrt (\<lambda>a b. nan_last_le (snd a) (snd b)) (sort_values_asc (var_series df))
    \<and> var_shortlist df var_threshold
        = map fst (take (nat var_threshold) (sort_values_asc (var_series df)))
    \<and> loc (df_rows df) (var_shortlist df var_threshold) = Inr guide_samples_df
    \<and> sum_series (length (df_columns df)) guide_samples_df =
        map (\<lambda>ir. (fst ir, sum_list (abs_vals
               (select_cols (complete_cols (length (df_columns df)) (map snd guide_samples_df)) (snd ir)))))
            guide_samples_df
    \<and> mset (sort_values_desc (sum_series (length (df_columns df)) guide_samples_df))
        = mset (sum_series (length (df_columns df)) guide_samples_df)
    \<and> sorted_wrt (\<lambda>a b. snd a \<ge> snd b)
        (sort_values_desc (sum_series (length (df_columns df)) guide_samples_df))
    \<and> sum_shortlist (length (df_columns df)) guide_samples_df k
        = map fst (take (nat k) (sort_values_desc (sum_series (length (df_columns df)) guide_samples_df)))
    \<and> loc guide_samples_df (sum_shortlist (length (df_columns df)) guide_samples_df k) = Inr guide
    \<and> select_guides df var_threshold (PyInt k) guide_samples = Inr guide"
proof -
  let ?n = "length (df_columns df)"
  obtain gdf where gdf: "loc (df_rows df) (var_shortlist df var_threshold) = Inr gdf"
    using loc_ok [OF set_var_shortlist] by blast
  obtain guide where guide: "loc gdf (sum_shortlist ?n gdf k) = Inr guide"
    using loc_ok [OF set_sum_shortlist] by blast
  have sel: "select_guides df var_threshold (PyInt k) guide_samples = Inr guide"
    using assms(1) gdf guide by (simp add: select_guides_def)
  have v: "var_shortlist df var_threshold
        = map fst (take (nat var_threshold) (sort_values_asc (var_series df)))"
    using assms(2) by (simp add: var_shortlist_def py_head_nonneg take_map)
  have s: "sum_shortlist ?n gdf k = map fst (take (nat k) (sort_values_desc (sum_series ?n gdf)))"
    using assms(3) by (simp add: sum_shortlist_def py_head_nonneg take_map)
  show ?thesis
    apply (rule exI [of _ gdf], rule exI [of _ guide])
    apply (intro conjI)
              apply (rule var_series_unfold)
             apply (rule sort_values_asc_mset)
            apply (rule sort_values_asc_sorted)
           apply (rule v)
          apply (rule gdf)
         apply (rule sum_series_unfold)
        apply (rule sort_values_desc_mset)
       apply (rule sort_values_desc_sorted)
      apply (rule s)
     apply (rule guide)
    apply (rule sel)
    done
qed

theorem automatic_guide_selection_witness:
  "\<not> truthy None \<and> (0::int) \<le> 1
   \<and> (\<exists>guide.
        select_guides \<lparr> df_columns = [10, 20, 30],
               df_rows = [(''a'', [Some (Fin 1), Some (Fin 1), None]),
                          (''b'', [Some (Fin 1), Some (Fin 5), Some (Fin 2)])] \<rparr> 1 (PyInt 1) None = Inr guide)"
proof -
  have h: "\<not> truthy None" by (simp add: truthy_def)
  have i: "(0::int) \<le> 1" by simp
  from automatic_guide_selection [OF h i i] h i show ?thesis by blast
qed

text \<open>
  C5, as the specification has it, fails as soon as one window was skipped. On the
  track with samples \<open>a = [1, 1, missing]\<close> and \<open>b = [1, 5, missing]\<close> no sample
  is without a missing window, so the specification has no eligible sample; the code
  drops the third window and picks \<open>a\<close>, whose remaining values do not vary.
\<close>

theorem automatic_guide_selection_counterexample:
  "select_guides \<lparr> df_columns = [10, 20, 30],
               df_rows = [(''a'', [Some (Fin 1), Some (Fin 1), None]),
                          (''b'', [Some (Fin 1), Some (Fin 5), None])] \<rparr> 1 (PyInt 1) None
     = Inr [(''a'', [Some (Fin 1), Some (Fin 1), None])]
   \<and> spec_auto_guides \<lparr> df_columns = [10, 20, 30],
               df_rows = [(''a'', [Some (Fin 1), Some (Fin 1), None]),
                          (''b'', [Some (Fin 1), Some (Fin 5), None])] \<rparr> 1 1
     = []"
  by (simp add: polarize_eval_defs spec_auto_guides_def)

subsection \<open>Polarization: votes on decided rows\<close>

lemma float_vote_iff:
  assumes "comparison_decided v p"
  shows "(\<bar>round_double (v - p)\<bar> > \<bar>round_double (v + p)\<bar>) = (v * p < 0)"
proof (cases "v * p < 0")
  case True
  then have "(v < 0 \<and> 0 < p) \<or> (0 < v \<and> p < 0)" by (auto simp: mult_less_0_iff)
  then have e: "\<bar>v - p\<bar> = \<bar>v\<bar> + \<bar>p\<bar>" "\<bar>v + p\<bar> = \<bar>\<bar>v\<bar> - \<bar>p\<bar>\<bar>" by auto
  have "\<bar>\<bar>v\<bar> - \<bar>p\<bar>\<bar> \<le> \<bar>v\<bar> + \<bar>p\<bar>" by linarith
  then have "round_double \<bar>\<bar>v\<bar> - \<bar>p\<bar>\<bar> \<le> round_double (\<bar>v\<bar> + \<bar>p\<bar>)" by (rule round_double_mono)
  with assms have "round_double \<bar>\<bar>v\<bar> - \<bar>p\<bar>\<bar> < round_double (\<bar>v\<bar> + \<bar>p\<bar>)"
    by (simp add: comparison_decided_def)
  with True show ?thesis by (simp only: round_double_abs e)
next
  case False
  then have "(0 \<le> v \<and> 0 \<le> p) \<or> (v \<le> 0 \<and> p \<le> 0)" by (auto simp: not_less zero_le_mult_iff)
  then have e: "\<bar>v - p\<bar> = \<bar>\<bar>v\<bar> - \<bar>p\<bar>\<bar>" "\<bar>v + p\<bar> = \<bar>v\<bar> + \<bar>p\<bar>" by auto
  have "\<bar>\<bar>v\<bar> - \<bar>p\<bar>\<bar> \<le> \<bar>v\<bar> + \<bar>p\<bar>" by linarith
  then have "round_double \<bar>\<bar>v\<bar> - \<bar>p\<bar>\<bar> \<le> round_double (\<bar>v\<bar> + \<bar>p\<bar>)" by (rule round_double_mono)
  with False show ?thesis by (simp only: round_double_abs e) simp
qed

lemma comparison_decided_uminus: "comparison_decided v (- p) = comparison_decided v p"
  by (simp add: comparison_decided_def)

lemma comparison_decided_nonzero: "comparison_decided v v \<Longrightarrow> v \<noteq> 0"
  by (auto simp: comparison_decided_def round_double_0)

lemma opposite_sign_neg:
  "x * p < 0 \<Longrightarrow> (y * (- x) < 0) = (y * p < 0)" for x p y :: real
  by (auto simp: mult_less_0_iff zero_less_mult_iff not_less) 

lemma same_sign_eq:
  "x \<noteq> 0 \<Longrightarrow> p \<noteq> 0 \<Longrightarrow> \<not> x * p < 0 \<Longrightarrow> (y * x < 0) = (y * p < 0)" for x p y :: real
  by (auto simp: mult_less_0_iff zero_less_mult_iff not_less)

lemma vote_loop_sign_votes:
  assumes "p \<noteq> 0" and "list_all is_number cs"
    and "\<forall>v\<in>set (numbers cs). comparison_decided v p"
    and "\<forall>v\<in>set (numbers cs). \<forall>w\<in>set (numbers cs). comparison_decided v w"
  shows "vote_loop (Fin p) out cs = out @ sign_votes p cs"
  using assms
proof (induction cs arbitrary: p out)
  case Nil
  then show ?case by (simp add: sign_votes_def)
next
  case (Cons c cs)
  from Cons.prems(2) obtain x where c: "c = Some (Fin x)"
    by (cases c rule: is_number.cases) auto
  from Cons.prems(4) have x: "x \<noteq> 0" by (simp add: c comparison_decided_nonzero)
  from Cons.prems(3) have xp: "comparison_decided x p" by (simp add: c)
  from Cons.prems(2) have num: "list_all is_number cs" by simp
  from Cons.prems(4) have pw: "\<forall>v\<in>set (numbers cs). \<forall>w\<in>set (numbers cs). comparison_decided v w"
    by (simp add: c)
  from Cons.prems(4) have dx: "\<forall>v\<in>set (numbers cs). comparison_decided v x"
    by (simp add: c)
  then have dmx: "\<forall>v\<in>set (numbers cs). comparison_decided v (- x)"
    by (simp add: comparison_decided_uminus)
  note cmp = float_vote_iff [OF xp]
  show ?case
  proof (cases "x * p < 0")
    case True
    then have "\<And>y. (y * (- x) < 0) = (y * p < 0)" by (rule opposite_sign_neg)
    then have "sign_votes (- x) cs = sign_votes p cs"
      by (simp only: sign_votes_def)
    with True Cons.IH [of "- x" "out @ [1]"] x num dmx pw show ?thesis
      by (simp add: c cmp sign_votes_def)
  next
    case False
    with x Cons.prems(1) have "\<And>y. (y * x < 0) = (y * p < 0)" by (rule same_sign_eq)
    then have "sign_votes x cs = sign_votes p cs"
      by (simp only: sign_votes_def)
    with False Cons.IH [of x "out @ [- 1]"] x num dx pw show ?thesis
      by (simp add: c cmp sign_votes_def)
  qed
qed

lemma row_votes_sign_votes:
  assumes "decided_row r" and "r \<noteq> []"
  shows "row_votes r = Inr (row_sign_votes r)"
proof -
  from assms obtain c cs where r: "r = c # cs" by (cases r) auto
  from assms(1) have num: "list_all is_number r"
    and pw: "\<forall>v\<in>set (numbers r). \<forall>w\<in>set (numbers r). comparison_decided v w"
    by (simp_all add: decided_row_def)
  from num r obtain x where c: "c = Some (Fin x)"
    by (cases c rule: is_number.cases) auto
  from pw have x: "x \<noteq> 0" by (simp add: r c comparison_decided_nonzero)
  from num r have 1: "list_all is_number cs" by simp
  from pw have 2: "\<forall>v\<in>set (numbers cs). comparison_decided v x" by (simp add: r c)
  from pw have 3: "\<forall>v\<in>set (numbers cs). \<forall>w\<in>set (numbers cs). comparison_decided v w"
    by (simp add: r c)
  from vote_loop_sign_votes [OF x 1 2 3, of "[0]"] show ?thesis
    by (simp add: row_votes_def r c)
qed

lemma rows_votes_sign_votes:
  "list_all (\<lambda>ir. decided_row (snd ir) \<and> snd ir \<noteq> []) g \<Longrightarrow>
     rows_votes g = Inr (map (\<lambda>ir. row_sign_votes (snd ir)) g)"
  by (induction g) (simp_all add: row_votes_sign_votes)

lemma decided_row_nonzero: "decided_row r \<Longrightarrow> list_all nonzero_number r"
proof (induction r)
  case Nil
  then show ?case by simp
next
  case (Cons c cs)
  from Cons.prems obtain x where c: "c = Some (Fin x)"
    by (cases c rule: is_number.cases) (auto simp: decided_row_def)
  from Cons.prems have "x \<noteq> 0"
    by (simp add: decided_row_def c comparison_decided_nonzero)
  moreover from Cons.prems have "decided_row cs" by (simp add: decided_row_def c)
  ultimately show ?case using Cons.IH by (simp add: c)
qed

lemma set_abs_vals: "set (abs_vals cs) = abs ` set (numbers cs)"
  by (induction cs rule: numbers.induct) simp_all

lemma decided_row_abs:
  "decided_row cs =
     (list_all is_number cs
      \<and> (\<forall>a\<in>set (abs_vals cs). \<forall>b\<in>set (abs_vals cs). round_double (a + b) \<noteq> round_double \<bar>a - b\<bar>))"
  by (simp add: decided_row_def comparison_decided_def set_abs_vals)

lemma is_number_rel:
  "list_all2 same_or_negated r r' \<Longrightarrow> list_all is_number r = list_all is_number r'"
proof (induction r r' rule: list_all2_induct)
  case Nil
  then show ?case by simp
next
  case (Cons c cs c' cs')
  from Cons.hyps(1) have "is_number c' = is_number c"
    by (cases c rule: isna.cases) (auto simp: same_or_negated_def)
  with Cons.IH show ?case by simp
qed

lemma na0_cneg: "na0 (cneg c) = - na0 c"
  by (cases c rule: isna.cases) simp_all

lemma nonzero_number_cneg: "nonzero_number (cneg c) = nonzero_number c"
  by (cases c rule: isna.cases) simp_all

lemma sign_votes_flip_cells:
  "a \<noteq> 0 \<Longrightarrow> list_all nonzero_number cs \<Longrightarrow>
     sign_votes a (flip_cells ss cs) = flip_votes ss (sign_votes a cs)"
proof (induction ss cs rule: flip_cells.induct)
  case (1 v vals c cs)
  from "1.prems" obtain x where c: "c = Some (Fin x)" and x: "x \<noteq> 0"
    by (cases c rule: nonzero_number.cases) auto
  from 1 have "sign_votes a (flip_cells vals cs) = flip_votes vals (sign_votes a cs)" by simp
  then show ?case using x "1.prems"(1)
    by (auto simp: sign_votes_def c mult_less_0_iff zero_less_mult_iff not_less)
qed (simp_all add: sign_votes_def)

lemma sign_votes_cneg: "sign_votes (- a) (map cneg cs) = sign_votes a cs"
  by (simp add: sign_votes_def na0_cneg comp_def)

lemma row_sign_votes_cneg: "row_sign_votes (map cneg r) = row_sign_votes r"
  by (cases r) (simp_all add: na0_cneg sign_votes_cneg)

lemma row_sign_votes_flip_cells:
  assumes "list_all nonzero_number r" and "sw = s0 # ss" and "\<not> s0 < 0"
  shows "row_sign_votes (flip_cells sw r) = flip_votes sw (row_sign_votes r)"
proof (cases r)
  case Nil
  then show ?thesis by (cases sw) simp_all
next
  case (Cons c cs)
  with assms obtain x where c: "c = Some (Fin x)" and x: "x \<noteq> 0"
    by (cases c rule: nonzero_number.cases) auto
  with Cons assms show ?thesis by (simp add: sign_votes_flip_cells)
qed

lemma nonzero_flip_cells:
  "list_all nonzero_number cs \<Longrightarrow> list_all nonzero_number (flip_cells ss cs)"
  by (induction ss cs rule: flip_cells.induct) (simp_all add: nonzero_number_cneg)

lemma nonzero_map_cneg:
  "list_all nonzero_number cs \<Longrightarrow> list_all nonzero_number (map cneg cs)"
  by (induction cs) (simp_all add: nonzero_number_cneg)

lemma flip_cells_nonneg:
  "list_all (\<lambda>s. \<not> s < 0) sw \<Longrightarrow> flip_cells sw cs = cs"
  by (induction sw cs rule: flip_cells.induct) simp_all

lemma length_row_sign_votes: "length (row_sign_votes r) = length r"
  by (cases r) (simp_all add: sign_votes_def)

lemma length_flip_votes: "length (flip_votes sw vs) = length vs"
  by (induction sw vs rule: flip_votes.induct) simp_all

lemma flip_votes_nth:
  "j < length sw \<Longrightarrow> j < length vs \<Longrightarrow>
     flip_votes sw vs ! j = (if sw ! j < 0 then - (vs ! j) else vs ! j)"
proof (induction sw vs arbitrary: j rule: flip_votes.induct)
  case (1 s ss v vs)
  then show ?case by (cases j) auto
qed auto

lemma row_sign_votes_0: "r \<noteq> [] \<Longrightarrow> row_sign_votes r ! 0 = 0"
  by (cases r) simp_all

lemma sum_list_neg: "sum_list (map (\<lambda>x. - f x) xs) = - sum_list (map f xs)" for f :: "'a \<Rightarrow> int"
  by (induction xs) simp_all

lemma switch_lst_of_Cons:
  "switch_lst_of (v # vs) = Inr (map (\<lambda>j. sum_list (map (\<lambda>votes. votes ! j) (v # vs))) [0..<length v])"
  by (simp add: switch_lst_of_def)

lemma first_switch_zero:
  assumes "list_all (\<lambda>ir. snd ir \<noteq> []) g"
    and "switch_lst_of (map (\<lambda>ir. row_sign_votes (snd ir)) g) = Inr sw"
  shows "\<exists>ss. sw = 0 # ss"
proof -
  from assms(2) obtain ir others where g: "g = ir # others"
    by (cases g) (auto simp: switch_lst_of_def)
  from assms(1) g have ne: "snd ir \<noteq> []" by simp
  then have pos: "0 < length (row_sign_votes (snd ir))" by (simp add: length_row_sign_votes)
  have z: "sum_list (map (\<lambda>votes. votes ! 0) (map (\<lambda>ir. row_sign_votes (snd ir)) g)) = 0"
    using assms(1) by (induction g) (simp_all add: row_sign_votes_0)
  from assms(2) have sw: "sw = map (\<lambda>j. sum_list (map (\<lambda>votes. votes ! j)
      (map (\<lambda>ir. row_sign_votes (snd ir)) g))) [0..<length (row_sign_votes (snd ir))]"
    unfolding g by (simp add: switch_lst_of_def)
  from pos obtain m where m: "length (row_sign_votes (snd ir)) = Suc m"
    by (cases "length (row_sign_votes (snd ir))") auto
  from z have z': "sum_list (map ((\<lambda>votes. votes ! 0) \<circ> (\<lambda>ir. row_sign_votes (snd ir))) g) = 0"
    by (simp only: map_map)
  show ?thesis
    by (subst sw, subst m, subst upt_conv_Cons) (simp_all add: z')
qed

lemma second_switch_nonneg:
  assumes "list_all (\<lambda>ir. length (snd ir) = n) g"
    and "switch_lst_of (map (\<lambda>ir. row_sign_votes (snd ir)) g) = Inr sw"
    and "switch_lst_of (map (\<lambda>ir. flip_votes sw (row_sign_votes (snd ir))) g) = Inr sw'"
  shows "list_all (\<lambda>s. \<not> s < 0) sw'"
proof -
  from assms(2) obtain ir others where g: "g = ir # others"
    by (cases g) (auto simp: switch_lst_of_def)
  from assms(1) g have n: "length (snd ir) = n" by simp
  have sw: "sw = map (\<lambda>j. sum_list (map (\<lambda>x. row_sign_votes (snd x) ! j) g)) [0..<n]"
    using assms(2) unfolding g by (simp add: switch_lst_of_def length_row_sign_votes n comp_def)
  have sw': "sw' = map (\<lambda>j. sum_list (map (\<lambda>x. flip_votes sw (row_sign_votes (snd x)) ! j) g)) [0..<n]"
    using assms(3) unfolding g
    by (simp add: switch_lst_of_def length_row_sign_votes length_flip_votes n comp_def)
  have len: "length sw = n" by (simp add: sw)
  have "\<not> sw' ! j < 0" if j: "j < n" for j
  proof -
    have e: "flip_votes sw (row_sign_votes (snd x)) ! j
            = (if sw ! j < 0 then - (row_sign_votes (snd x) ! j) else row_sign_votes (snd x) ! j)"
      if "x \<in> set g" for x
      using that assms(1) j len
      by (intro flip_votes_nth) (auto simp: length_row_sign_votes list_all_iff)
    have "sw' ! j = sum_list (map (\<lambda>x. flip_votes sw (row_sign_votes (snd x)) ! j) g)"
      using j by (simp add: sw')
    also have "\<dots> = sum_list (map (\<lambda>x. if sw ! j < 0 then - (row_sign_votes (snd x) ! j)
                                     else row_sign_votes (snd x) ! j) g)"
      using e by (intro arg_cong [where f = sum_list] map_cong) auto
    also have "\<dots> = (if sw ! j < 0 then - sum_list (map (\<lambda>x. row_sign_votes (snd x) ! j) g)
                    else sum_list (map (\<lambda>x. row_sign_votes (snd x) ! j) g))"
      by (simp add: sum_list_neg)
    also have "\<dots> = (if sw ! j < 0 then - (sw ! j) else sw ! j)"
      using j by (simp add: sw)
    finally show ?thesis by simp
  qed
  moreover have "length sw' = n" by (simp add: sw')
  ultimately show ?thesis by (simp add: list_all_length)
qed

lemma to_numpy_negate: "to_numpy_na0 (negate_track df) = map uminus (to_numpy_na0 df)"
  by (simp add: to_numpy_na0_def negate_track_def map_concat comp_def na0_cneg)

lemma fold_min_uminus: "fold min (map uminus xs) (- x) = - fold max xs x" for x :: real
proof (induction xs arbitrary: x)
  case (Cons a xs)
  have "min (- a) (- x) = - max a x" by (simp add: max_def min_def)
  with Cons [of "max a x"] show ?case by simp
qed simp

lemma fold_max_uminus: "fold max (map uminus xs) (- x) = - fold min xs x" for x :: real
proof (induction xs arbitrary: x)
  case (Cons a xs)
  have "max (- a) (- x) = - min a x" by (simp add: max_def min_def)
  with Cons [of "min a x"] show ?case by simp
qed simp

lemma global_flip_idem:
  assumes "global_flip df = Inr df'"
  shows "global_flip df' = Inr df'"
proof -
  from assms obtain x xs where c: "to_numpy_na0 df = x # xs"
    by (cases "to_numpy_na0 df") (auto simp: global_flip_def)
  show ?thesis
  proof (cases "\<bar>fold min xs x\<bar> > \<bar>fold max xs x\<bar>")
    case True
    with assms c have d: "df' = negate_track df" by (simp add: global_flip_def)
    have "to_numpy_na0 df' = (- x) # map uminus xs" by (simp add: d to_numpy_negate c)
    with True show ?thesis
      by (simp add: global_flip_def fold_min_uminus fold_max_uminus)
  next
    case False
    with assms c have "df' = df" by (simp add: global_flip_def)
    with assms show ?thesis by simp
  qed
qed

lemma loc_map:
  assumes "\<And>ir. fst (h ir) = fst ir"
  shows "loc (map h rs) labels = (case loc rs labels of Inl e \<Rightarrow> Inl e | Inr g \<Rightarrow> Inr (map h g))"
proof -
  have 1: "map fst (map h rs) = map fst rs" by (simp add: assms comp_def)
  have 2: "filter (\<lambda>ir. fst ir = l) (map h rs) = map h (filter (\<lambda>ir. fst ir = l) rs)" for l
    by (simp add: filter_map comp_def assms)
  show ?thesis
    unfolding loc_def 1 2 by (simp add: map_concat comp_def)
qed

lemma complete_cols_rel:
  assumes "list_all (\<lambda>r. length r = n) rs" and "\<And>r. list_all2 same_or_negated r (F r)"
  shows "complete_cols n (map F rs) = complete_cols n rs"
proof -
  have "isna (F r ! j) = isna (r ! j)" if "r \<in> set rs" "j < n" for r j
  proof -
    from that assms(1) have "j < length r" by (simp add: list_all_iff)
    from list_all2_nthD [OF assms(2) this] show ?thesis by (simp add: same_or_negated_def)
  qed
  then show ?thesis
    by (auto simp: complete_cols_def list_all_iff)
qed

lemma select_cols_rel:
  "list_all2 R xs ys \<Longrightarrow> list_all2 R (select_cols keep xs) (select_cols keep ys)"
proof (induction xs ys arbitrary: keep rule: list_all2_induct)
  case Nil
  then show ?case by (simp add: select_cols_def)
next
  case (Cons x xs y ys)
  from Cons.IH [of "tl keep"] Cons.hyps show ?case
    by (cases keep) (simp_all add: select_cols_def)
qed

lemma abs_vals_rel: "list_all2 same_or_negated xs ys \<Longrightarrow> abs_vals xs = abs_vals ys"
proof (induction xs ys rule: list_all2_induct)
  case Nil
  then show ?case by simp
next
  case (Cons x xs y ys)
  from Cons.hyps(1) consider "y = x" | "y = cneg x" by (auto simp: same_or_negated_def)
  then show ?case
  proof cases
    case 1
    with Cons.IH show ?thesis by (cases x rule: isna.cases) simp_all
  next
    case 2
    with Cons.IH show ?thesis by (cases x rule: isna.cases) simp_all
  qed
qed

lemma decided_row_rel:
  assumes "list_all2 same_or_negated r r'" and "decided_row r"
  shows "decided_row r'"
  using assms(2) unfolding decided_row_abs
  by (simp add: abs_vals_rel [OF assms(1)] is_number_rel [OF assms(1)])

lemma dropna_abs_vals_rel:
  assumes "list_all (\<lambda>ir. length (snd ir) = n) rs" and "\<And>r. list_all2 same_or_negated r (F r)"
  shows "map (\<lambda>ir. (fst ir, f (abs_vals (snd ir)))) (dropna_axis1 n (map (\<lambda>ir. (fst ir, F (snd ir))) rs))
       = map (\<lambda>ir. (fst ir, f (abs_vals (snd ir)))) (dropna_axis1 n rs)"
proof -
  have l: "list_all (\<lambda>r. length r = n) (map snd rs)"
    using assms(1) by (simp add: list_all_iff)
  have c: "complete_cols n (map (\<lambda>x. F (snd x)) rs) = complete_cols n (map snd rs)"
    using complete_cols_rel [OF l assms(2)] by (simp add: comp_def)
  have "abs_vals (select_cols k (F r)) = abs_vals (select_cols k r)" for k r
    using abs_vals_rel [OF select_cols_rel [OF assms(2)], of k r] by simp
  then show ?thesis
    by (simp add: dropna_axis1_def c comp_def)
qed

lemma var_series_rel:
  assumes "wf_track df" and "\<And>r. list_all2 same_or_negated r (F r)"
  shows "var_series (df\<lparr> df_rows := map (\<lambda>ir. (fst ir, F (snd ir))) (df_rows df) \<rparr>) = var_series df"
  using dropna_abs_vals_rel [of "length (df_columns df)" "df_rows df" F var_ddof1] assms
  by (simp add: var_series_def wf_track_def)

lemma sum_series_rel:
  assumes "list_all (\<lambda>ir. length (snd ir) = n) g" and "\<And>r. list_all2 same_or_negated r (F r)"
  shows "sum_series n (map (\<lambda>ir. (fst ir, F (snd ir))) g) = sum_series n g"
  using dropna_abs_vals_rel [OF assms, of sum_list] by (simp add: sum_series_def)

lemma select_guides_rel:
  assumes "wf_track df" and "\<And>r. list_all2 same_or_negated r (F r)"
  shows "select_guides (df\<lparr> df_rows := map (\<lambda>ir. (fst ir, F (snd ir))) (df_rows df) \<rparr>) vt mt gs
       = (case select_guides df vt mt gs of
            Inl e \<Rightarrow> Inl e
          | Inr g \<Rightarrow> Inr (map (\<lambda>ir. (fst ir, F (snd ir))) g))"
proof -
  let ?h = "\<lambda>ir. (fst ir, F (snd ir))"
  let ?df' = "df\<lparr> df_rows := map ?h (df_rows df) \<rparr>"
  have lm: "loc (map ?h rs) labels = (case loc rs labels of Inl e \<Rightarrow> Inl e | Inr g \<Rightarrow> Inr (map ?h g))"
    for rs labels by (rule loc_map) simp
  have vs: "var_shortlist ?df' vt = var_shortlist df vt"
    by (simp add: var_shortlist_def var_series_rel [OF assms])
  have ss: "sum_shortlist (length (df_columns df)) (map ?h g) k = sum_shortlist (length (df_columns df)) g k"
    if "loc (df_rows df) labels = Inr g" for g labels k
  proof -
    from loc_subset [OF that] assms(1) have "list_all (\<lambda>ir. length (snd ir) = length (df_columns df)) g"
      by (auto simp: wf_track_def list_all_iff)
    from sum_series_rel [OF this assms(2)] show ?thesis by (simp add: sum_shortlist_def)
  qed
  show ?thesis
  proof (cases "truthy gs")
    case True
    then show ?thesis
      by (simp add: select_guides_def lm split: pyval.splits sum.splits)
  next
    case False
    then show ?thesis
      by (auto simp: select_guides_def lm vs ss split: pyval.splits sum.splits)
  qed
qed

lemma rows_votes_nonempty:
  "rows_votes g = Inr v \<Longrightarrow> list_all (\<lambda>ir. snd ir \<noteq> []) g"
  by (induction g arbitrary: v) (auto simp: row_votes_def split: sum.splits list.splits)

lemma flip_windows_nonneg:
  "list_all (\<lambda>s. \<not> s < 0) sw \<Longrightarrow> flip_windows sw df = df"
  by (simp add: flip_windows_def flip_cells_nonneg)

lemma polarize_second_run:
  assumes wf: "wf_track df"
    and F: "\<And>r. list_all2 same_or_negated r (F r)"
    and sel: "select_guides df vt mt gs = Inr g"
    and nz: "list_all (\<lambda>ir. decided_row (snd ir) \<and> snd ir \<noteq> []) g"
    and sw: "switch_lst_of (map (\<lambda>ir. row_sign_votes (snd ir)) g) = Inr sw"
    and Fv: "\<And>r. list_all nonzero_number r \<Longrightarrow>
               row_sign_votes (F r) = flip_votes sw (row_sign_votes r)"
    and df': "df' = df\<lparr> df_rows := map (\<lambda>ir. (fst ir, F (snd ir))) (df_rows df) \<rparr>"
    and gf: "global_flip df' = Inr df'"
  shows "polarize df' vt mt gs = Inr df'"
proof -
  let ?h = "\<lambda>ir. (fst ir, F (snd ir))"
  have sel': "select_guides df' vt mt gs = Inr (map ?h g)"
    unfolding df' using select_guides_rel [OF wf F, of vt mt gs] sel by simp
  have len: "length (F r) = length r" for r
    using F [of r] by (simp add: list_all2_lengthD)
  have nz': "list_all (\<lambda>ir. decided_row (snd ir) \<and> snd ir \<noteq> []) (map ?h g)"
  proof -
    have "decided_row (F (snd ir)) \<and> F (snd ir) \<noteq> []" if "ir \<in> set g" for ir
    proof -
      from that nz have a: "decided_row (snd ir)" and b: "snd ir \<noteq> []"
        by (simp_all add: list_all_iff)
      from b len [of "snd ir"] have "F (snd ir) \<noteq> []" by auto
      with decided_row_rel [OF F a] show ?thesis by simp
    qed
    then show ?thesis by (simp add: list_all_iff)
  qed
  have "row_sign_votes (F (snd ir)) = flip_votes sw (row_sign_votes (snd ir))" if "ir \<in> set g" for ir
  proof -
    from that nz have "decided_row (snd ir)" by (simp add: list_all_iff)
    then have "list_all nonzero_number (snd ir)" by (rule decided_row_nonzero)
    then show ?thesis by (rule Fv)
  qed
  then have "map (\<lambda>ir. row_sign_votes (snd ir)) (map ?h g)
          = map (\<lambda>ir. flip_votes sw (row_sign_votes (snd ir))) g"
    by simp
  with rows_votes_sign_votes [OF nz']
  have votes': "rows_votes (map ?h g) = Inr (map (\<lambda>ir. flip_votes sw (row_sign_votes (snd ir))) g)"
    by simp
  from sw obtain ir others where g: "g = ir # others"
    by (cases g) (auto simp: switch_lst_of_def)
  then obtain sw' where
    sw': "switch_lst_of (map (\<lambda>ir. flip_votes sw (row_sign_votes (snd ir))) g) = Inr sw'"
    by (simp add: switch_lst_of_def)
  from second_switch_nonneg [OF guide_rows_length [OF wf sel] sw sw'] have "flip_windows sw' df' = df'"
    by (rule flip_windows_nonneg)
  with sel' votes' sw' gf show ?thesis
    by (simp add: polarize_def)
qed

subsection \<open>Polarization: what the global flip achieves\<close>

lemma fold_min_max_bounds:
  fixes x :: real
  shows "fold min xs x \<le> fold max xs x"
    and "y \<in> set (x # xs) \<Longrightarrow> fold min xs x \<le> y \<and> y \<le> fold max xs x"
    and "fold min xs x \<in> set (x # xs)" and "fold max xs x \<in> set (x # xs)"
proof -
  have m: "fold min xs x = Min (set (x # xs))" by (rule Min.set_eq_fold [symmetric])
  have M: "fold max xs x = Max (set (x # xs))" by (rule Max.set_eq_fold [symmetric])
  have fin: "finite (set (x # xs))" and ne: "set (x # xs) \<noteq> {}" by simp_all
  show "fold min xs x \<in> set (x # xs)" unfolding m using fin ne by (rule Min_in)
  show "fold max xs x \<in> set (x # xs)" unfolding M using fin ne by (rule Max_in)
  show b: "fold min xs x \<le> y \<and> y \<le> fold max xs x" if "y \<in> set (x # xs)" for y
    unfolding m M using that fin by (intro conjI Min_le Max_ge)
  from b [of x] show "fold min xs x \<le> fold max xs x" by simp
qed

lemma abs_bound_neg: "m \<le> y \<Longrightarrow> y \<le> M \<Longrightarrow> \<bar>M\<bar> < \<bar>m\<bar> \<Longrightarrow> \<bar>y\<bar> \<le> - m \<and> m < 0" for m M y :: real
  by linarith

lemma abs_bound_pos: "m \<le> y \<Longrightarrow> y \<le> M \<Longrightarrow> \<not> \<bar>M\<bar> < \<bar>m\<bar> \<Longrightarrow> 0 \<le> M \<Longrightarrow> \<bar>y\<bar> \<le> M" for m M y :: real
  by linarith

lemma abs_bound_eq: "m \<le> y \<Longrightarrow> y \<le> M \<Longrightarrow> \<not> \<bar>M\<bar> < \<bar>m\<bar> \<Longrightarrow> \<not> 0 \<le> M \<Longrightarrow> y = M" for m M y :: real
  by linarith

lemma global_flip_dominant:
  assumes "global_flip df = Inr df'"
  shows "(\<exists>x\<in>set (to_numpy_na0 df'). 0 \<le> x \<and> (\<forall>y\<in>set (to_numpy_na0 df'). \<bar>y\<bar> \<le> x))
       \<or> (\<exists>c<0. set (to_numpy_na0 df) = {c} \<and> df' = df)"
proof -
  from assms obtain x xs where c: "to_numpy_na0 df = x # xs"
    by (cases "to_numpy_na0 df") (auto simp: global_flip_def)
  let ?m = "fold min xs x" and ?M = "fold max xs x"
  note b = fold_min_max_bounds [where x = x and xs = xs]
  show ?thesis
  proof (cases "\<bar>?m\<bar> > \<bar>?M\<bar>")
    case True
    with assms c have d: "df' = negate_track df" by (simp add: global_flip_def)
    have s': "to_numpy_na0 df' = map uminus (x # xs)" by (simp only: d to_numpy_negate c)
    have 1: "- ?m \<in> set (to_numpy_na0 df')"
      unfolding s' using b(3) by (simp only: set_map image_eqI)
    have 2: "0 \<le> - ?m" using abs_bound_neg [of ?m ?m ?M] b(1) True by simp
    have 3: "\<bar>y\<bar> \<le> - ?m" if "y \<in> set (to_numpy_na0 df')" for y
    proof -
      from that obtain z where z: "z \<in> set (x # xs)" and y: "y = - z"
        unfolding s' by (auto simp only: set_map)
      from b(2) [OF z] have "?m \<le> z" "z \<le> ?M" by simp_all
      from abs_bound_neg [OF this True] show ?thesis by (simp add: y)
    qed
    from 1 2 3 show ?thesis by blast
  next
    case False
    with assms c have d: "df' = df" by (simp add: global_flip_def)
    show ?thesis
    proof (cases "0 \<le> ?M")
      case True
      have "\<bar>y\<bar> \<le> ?M" if "y \<in> set (x # xs)" for y
      proof -
        from b(2) [OF that] have "?m \<le> y" "y \<le> ?M" by simp_all
        from abs_bound_pos [OF this False True] show ?thesis .
      qed
      with True b(4) show ?thesis unfolding d c by blast
    next
      case neg: False
      define c0 where "c0 = ?M"
      have "y = c0" if "y \<in> set (x # xs)" for y
      proof -
        from b(2) [OF that] have "?m \<le> y" "y \<le> ?M" by simp_all
        from abs_bound_eq [OF this False neg] show ?thesis by (simp only: c0_def)
      qed
      moreover have "c0 \<in> set (x # xs)" unfolding c0_def by (rule b(4))
      ultimately have "set (x # xs) = {c0}" by blast
      moreover have "c0 < 0" using neg by (simp only: c0_def not_le)
      ultimately show ?thesis unfolding d c by blast
    qed
  qed
qed

lemma numbers_na0: "set (numbers cs) \<subseteq> set (map na0 cs)"
  by (induction cs rule: numbers.induct) auto

lemma na0_numbers: "y \<in> set (map na0 cs) \<Longrightarrow> y \<noteq> 0 \<Longrightarrow> y \<in> set (numbers cs)"
  by (induction cs rule: numbers.induct) auto

lemma finite_values_subset: "set (finite_values df) \<subseteq> set (to_numpy_na0 df)"
  using numbers_na0 by (fastforce simp: finite_values_def to_numpy_na0_def)

lemma to_numpy_nonzero:
  "y \<in> set (to_numpy_na0 df) \<Longrightarrow> y \<noteq> 0 \<Longrightarrow> y \<in> set (finite_values df)"
  using na0_numbers by (fastforce simp: finite_values_def to_numpy_na0_def)

lemma global_flip_largest:
  assumes "global_flip df = Inr df'" and "\<not> (\<exists>c<0. set (to_numpy_na0 df) = {c})"
  shows "df' = (if largest_is_negative df then negate_track df else df)"
proof -
  from assms(1) obtain x xs where c: "to_numpy_na0 df = x # xs"
    by (cases "to_numpy_na0 df") (auto simp: global_flip_def)
  let ?m = "fold min xs x" and ?M = "fold max xs x"
  note b = fold_min_max_bounds [where x = x and xs = xs]
  have fin: "y \<in> set (x # xs)" if "y \<in> set (finite_values df)" for y
    using that finite_values_subset [of df] unfolding c by blast
  have nz: "y \<in> set (finite_values df)" if "y \<in> set (x # xs)" "y \<noteq> 0" for y
    using to_numpy_nonzero [of y df] that unfolding c by blast
  show ?thesis
  proof (cases "\<bar>?m\<bar> > \<bar>?M\<bar>")
    case True
    with assms(1) c have d: "df' = negate_track df" by (simp add: global_flip_def)
    from True b(1) have mneg: "?m < 0" by linarith
    with b(3) have 1: "?m \<in> set (finite_values df)" by (intro nz) simp_all
    have 2: "\<bar>y\<bar> < \<bar>?m\<bar>" if "y \<in> set (finite_values df)" "y \<noteq> ?m" for y
    proof -
      from b(2) [OF fin [OF that(1)]] have "?m \<le> y" "y \<le> ?M" by simp_all
      with True that(2) show ?thesis by linarith
    qed
    from 1 2 mneg have "largest_is_negative df"
      unfolding largest_is_negative_def by blast
    with d show ?thesis by simp
  next
    case False
    with assms(1) c have d: "df' = df" by (simp add: global_flip_def)
    have "\<not> largest_is_negative df"
    proof
      assume "largest_is_negative df"
      then obtain z where z: "z \<in> set (finite_values df)" "z < 0"
        and dom: "\<And>y. y \<in> set (finite_values df) \<Longrightarrow> y \<noteq> z \<Longrightarrow> \<bar>y\<bar> < \<bar>z\<bar>"
        unfolding largest_is_negative_def by blast
      from b(2) [OF fin [OF z(1)]] have mz: "?m \<le> z" by simp
      have m: "?m = z"
      proof (rule ccontr)
        assume ne: "?m \<noteq> z"
        with mz z(2) have "?m < 0" by linarith
        with b(3) have "?m \<in> set (finite_values df)" by (intro nz) simp_all
        from dom [OF this ne] mz z(2) show False by linarith
      qed
      have Mz: "?M \<noteq> z"
      proof
        assume e: "?M = z"
        have "y = z" if "y \<in> set (x # xs)" for y
          using b(2) [OF that] e m by linarith
        with fin [OF z(1)] have "set (x # xs) = {z}" by blast
        with z(2) assms(2) show False unfolding c by blast
      qed
      show False
      proof (cases "?M = 0")
        case True
        with False m z(2) show False by simp
      next
        case M0: False
        with b(4) have "?M \<in> set (finite_values df)" by (intro nz) simp_all
        from dom [OF this Mz] False m show False by simp
      qed
    qed
    with d show ?thesis by simp
  qed
qed

lemma global_flip_finite_dominant:
  assumes "global_flip df = Inr df'" and "\<not> (\<exists>c<0. set (to_numpy_na0 df) = {c})"
  shows "\<forall>y\<in>set (finite_values df'). \<exists>x\<in>set (finite_values df'). 0 \<le> x \<and> \<bar>y\<bar> \<le> x"
proof
  fix y
  assume y: "y \<in> set (finite_values df')"
  from global_flip_dominant [OF assms(1)] assms(2)
  obtain x where x: "x \<in> set (to_numpy_na0 df')" "0 \<le> x"
    and dom: "\<And>z. z \<in> set (to_numpy_na0 df') \<Longrightarrow> \<bar>z\<bar> \<le> x"
    by blast
  from y finite_values_subset have "y \<in> set (to_numpy_na0 df')" by blast
  from dom [OF this] have yx: "\<bar>y\<bar> \<le> x" .
  show "\<exists>x\<in>set (finite_values df'). 0 \<le> x \<and> \<bar>y\<bar> \<le> x"
  proof (cases "x = 0")
    case True
    with yx have "y = 0" by simp
    with y show ?thesis by auto
  next
    case False
    with x(1) have "x \<in> set (finite_values df')" by (rule to_numpy_nonzero)
    with x(2) yx show ?thesis by blast
  qed
qed

subsection \<open>Polarization: the window flips never leave one negative value\<close>

text \<open>
  The comparison of the last step is strict, so a track whose cells all hold the same
  negative number would be left as it is. The window flips do not produce such a track
  from a track that has a missing cell or a number that is not negative: all its cells
  would be \<open>c\<close> or \<open>-c\<close>, the reference of every guide row would stay \<open>c\<close>, and a
  window holding \<open>-c\<close> would get the vote +1 from every guide row and not be flipped.
\<close>

lemma na0_eq_nonzero: "na0 x = c \<Longrightarrow> c \<noteq> 0 \<Longrightarrow> x = Some (Fin c)"
  by (cases x rule: isna.cases) auto

lemma cneg_eq_Fin: "cneg x = Some (Fin c) \<Longrightarrow> x = Some (Fin (- c))"
  by (cases x rule: isna.cases) auto

lemma hd_vote_loop: "out \<noteq> [] \<Longrightarrow> hd (vote_loop p out cs) = hd out"
  by (induction p out cs rule: vote_loop.induct) auto

lemma row_votes_0: "row_votes r = Inr votes \<Longrightarrow> votes ! 0 = 0"
proof -
  assume a: "row_votes r = Inr votes"
  then obtain p rest where v: "votes = vote_loop p [0] rest"
    by (auto simp: row_votes_def split: list.splits)
  have "votes \<noteq> []" using length_vote_loop [of p "[0]" rest] v by auto
  then have "votes ! 0 = hd votes" by (simp add: hd_conv_nth)
  also have "\<dots> = 0" unfolding v by (simp add: hd_vote_loop)
  finally show ?thesis .
qed

lemma rows_votes_mem:
  "rows_votes g = Inr rows_lst \<Longrightarrow> votes \<in> set rows_lst \<Longrightarrow>
     \<exists>ir\<in>set g. row_votes (snd ir) = Inr votes"
  by (induction g arbitrary: rows_lst) (auto split: sum.splits)

lemma sum_list_all_zero:
  "(\<And>x. x \<in> set xs \<Longrightarrow> f x = (0::int)) \<Longrightarrow> sum_list (map f xs) = 0"
  by (induction xs) simp_all

lemma vote_loop_constant_magnitude:
  assumes "c \<noteq> 0" and "\<forall>x\<in>set cs. x = Some (Fin c) \<or> x = Some (Fin (- c))"
  shows "vote_loop (Fin c) out cs = out @ map (\<lambda>x. if x = Some (Fin c) then - 1 else 1) cs"
  using assms(2)
proof (induction cs arbitrary: out)
  case Nil
  then show ?case by simp
next
  case (Cons x cs)
  from Cons.prems have rest: "\<forall>x\<in>set cs. x = Some (Fin c) \<or> x = Some (Fin (- c))" by simp
  from Cons.prems consider "x = Some (Fin c)" | "x = Some (Fin (- c))" by auto
  then show ?case
  proof cases
    case 1
    with Cons.IH [OF rest, of "out @ [- 1]"] show ?thesis
      by (simp add: round_double_0)
  next
    case 2
    with Cons.IH [OF rest, of "out @ [1]"] assms(1) show ?thesis
      by (simp add: round_double_0 round_double_eq_0)
  qed
qed

lemma flip_windows_not_constant_negative:
  assumes wf: "wf_track df"
    and sel: "select_guides df vt mt gs = Inr g"
    and rv: "rows_votes g = Inr rows_lst"
    and sw: "switch_lst_of rows_lst = Inr sw"
    and nn: "\<exists>x\<in>set (concat (map snd (df_rows df))). 0 \<le> na0 x"
    and const: "set (to_numpy_na0 (flip_windows sw df)) = {c}"
    and neg: "c < 0"
  shows False
proof -
  let ?n = "length (df_columns df)"
  from rv sw obtain ir others out outs where
    g: "g = ir # others" and r: "rows_lst = out # outs" and l: "length out = length (snd ir)"
    by (rule rows_votes_hd)
  from guide_rows_length [OF wf sel] g l have lo: "length out = ?n" by simp
  have lsw: "length sw = ?n" using sw r lo by (auto simp: switch_lst_of_def)
  have swj: "sw ! j = sum_list (map (\<lambda>votes. votes ! j) rows_lst)" if "j < ?n" for j
    using sw r lo that by (auto simp: switch_lst_of_def)
  from neg have cn: "c \<noteq> 0" by simp
  have cell: "snd ir' ! j = (if sw ! j < 0 then Some (Fin (- c)) else Some (Fin c))"
    if "ir' \<in> set (df_rows df)" "j < ?n" for ir' j
  proof -
    from that(1) wf have lr: "length (snd ir') = ?n" by (simp add: wf_track_def list_all_iff)
    have "flip_cells sw (snd ir') ! j \<in> set (flip_cells sw (snd ir'))"
      using that(2) lr by (simp add: flip_cells_length)
    with that(1) have "na0 (flip_cells sw (snd ir') ! j) \<in> set (to_numpy_na0 (flip_windows sw df))"
      by (force simp: to_numpy_na0_def flip_windows_def)
    with const have "na0 (flip_cells sw (snd ir') ! j) = c" by simp
    then have "flip_cells sw (snd ir') ! j = Some (Fin c)" using cn by (rule na0_eq_nonzero)
    moreover have "flip_cells sw (snd ir') ! j = (if sw ! j < 0 then cneg (snd ir' ! j) else snd ir' ! j)"
      by (rule flip_cells_nth) (use that lr lsw in simp_all)
    ultimately show ?thesis by (auto dest: cneg_eq_Fin split: if_splits)
  qed
  from nn obtain ir0 x where ir0: "ir0 \<in> set (df_rows df)" and x: "x \<in> set (snd ir0)" "0 \<le> na0 x"
    by auto
  from x(1) obtain j where j: "j < length (snd ir0)" "snd ir0 ! j = x"
    by (auto simp: in_set_conv_nth)
  from ir0 wf have "length (snd ir0) = ?n" by (simp add: wf_track_def list_all_iff)
  with j have jn: "j < ?n" by simp
  from cell [OF ir0 jn] j(2) x(2) neg have neg_j: "sw ! j < 0" by (auto split: if_splits)
  have "sum_list (map (\<lambda>votes. votes ! 0) rows_lst) = 0"
  proof (rule sum_list_all_zero)
    fix votes
    assume v: "votes \<in> set rows_lst"
    from rows_votes_mem [OF rv v] obtain ir' :: "string \<times> cell list"
      where "row_votes (snd ir') = Inr votes"
      by blast
    then show "votes ! 0 = 0" by (rule row_votes_0)
  qed
  moreover from jn have n0: "0 < ?n" by (cases "df_columns df") simp_all
  ultimately have sw0: "sw ! 0 = 0" using swj [of 0] by simp
  with neg_j obtain j' where j': "j = Suc j'" by (cases j) auto
  have one: "votes ! j = 1" if "votes \<in> set rows_lst" for votes
  proof -
    from rows_votes_mem [OF rv that] obtain ir' where
      i': "ir' \<in> set g" and rv': "row_votes (snd ir') = Inr votes"
      by blast
    from i' select_guides_subset [OF sel] have d: "ir' \<in> set (df_rows df)" by blast
    from d wf have lr: "length (snd ir') = ?n" by (simp add: wf_track_def list_all_iff)
    with jn obtain r0 rest where rr: "snd ir' = r0 # rest" by (cases "snd ir'") auto
    from cell [OF d n0] sw0 rr have r0: "r0 = Some (Fin c)" by simp
    have rest: "\<forall>x\<in>set rest. x = Some (Fin c) \<or> x = Some (Fin (- c))"
    proof
      fix x
      assume "x \<in> set rest"
      then obtain k where k: "k < length rest" "rest ! k = x" by (auto simp: in_set_conv_nth)
      with lr rr have "Suc k < ?n" by simp
      from cell [OF d this] rr k(2) show "x = Some (Fin c) \<or> x = Some (Fin (- c))"
        by (auto split: if_splits)
    qed
    from rv' have v: "votes = [0] @ map (\<lambda>x. if x = Some (Fin c) then - 1 else 1) rest"
      by (simp add: row_votes_def rr r0 vote_loop_constant_magnitude [OF cn rest])
    have 1: "rest ! j' = Some (Fin (- c))" using cell [OF d jn] neg_j rr j' by simp
    have 2: "j' < length rest" using jn lr rr j' by simp
    from 1 2 cn show ?thesis by (simp add: v j')
  qed
  have "0 \<le> sum_list (map (\<lambda>votes. votes ! j) rows_lst)"
    by (rule sum_list_nonneg) (auto simp: one)
  with swj [OF jn] neg_j show False by simp
qed

subsection \<open>Polarization: the global flip\<close>

text \<open>
  C7. On a track that has a missing cell or a number that is not negative (a track of
  centred coordinates, or one with a skipped window, has), \<open>polarize\<close> ends as claimed: when, after the window
  flips, the number of largest magnitude is negative, the result is that track times
  -1, and otherwise that track; and for every number in the result there is a
  non-negative number in the result of at least its magnitude. (The comparison in the
  code is strict; the track of the one value -1, which has no such cell, comes back
  unchanged.)
\<close>

theorem polarize_largest_value_nonnegative:
  assumes "wf_track df"
    and "polarize df var_threshold mean_threshold guide_samples = Inr df'"
    and "\<exists>x\<in>set (concat (map snd (df_rows df))). 0 \<le> na0 x"
  shows "(\<forall>y\<in>set (finite_values df'). \<exists>x\<in>set (finite_values df'). 0 \<le> x \<and> \<bar>y\<bar> \<le> x)
       \<and> (\<exists>guide_samples_df rows_lst switch_lst.
             select_guides df var_threshold mean_threshold guide_samples = Inr guide_samples_df
             \<and> rows_votes guide_samples_df = Inr rows_lst
             \<and> switch_lst_of rows_lst = Inr switch_lst
             \<and> df' = (if largest_is_negative (flip_windows switch_lst df)
                      then negate_track (flip_windows switch_lst df)
                      else flip_windows switch_lst df))"
proof -
  from assms(2) obtain g rows_lst sw where
    sel: "select_guides df var_threshold mean_threshold guide_samples = Inr g"
    and rv: "rows_votes g = Inr rows_lst"
    and sl: "switch_lst_of rows_lst = Inr sw"
    and gf: "global_flip (flip_windows sw df) = Inr df'"
    by (rule polarize_steps)
  have nc: "\<not> (\<exists>c<0. set (to_numpy_na0 (flip_windows sw df)) = {c})"
    using flip_windows_not_constant_negative [OF assms(1) sel rv sl assms(3)] by blast
  from global_flip_finite_dominant [OF gf nc] global_flip_largest [OF gf nc] sel rv sl
  show ?thesis by blast
qed

theorem polarize_largest_value_nonnegative_witness:
  "polarize \<lparr> df_columns = [10, 20],
              df_rows = [(''g'', [Some (Fin 1), Some (Fin 2)]), (''s'', [Some (Fin 3), Some (Fin 9)])] \<rparr>
            1 (PyInt 1) None
     = Inr \<lparr> df_columns = [10, 20],
             df_rows = [(''g'', [Some (Fin (- 1)), Some (Fin 2)]),
                        (''s'', [Some (Fin (- 3)), Some (Fin 9)])] \<rparr>
   \<and> finite_values \<lparr> df_columns = [10, 20],
             df_rows = [(''g'', [Some (Fin (- 1)), Some (Fin 2)]),
                        (''s'', [Some (Fin (- 3)), Some (Fin 9)])] \<rparr> = [- 1, 2, - 3, 9]
   \<and> largest_is_negative \<lparr> df_columns = [10, 20],
             df_rows = [(''g'', [Some (Fin 1), Some (Fin (- 2))]),
                        (''s'', [Some (Fin 3), Some (Fin (- 9))])] \<rparr>"
proof -
  let ?df = "\<lparr> df_columns = [10, 20],
              df_rows = [(''g'', [Some (Fin 1), Some (Fin 2)]), (''s'', [Some (Fin 3), Some (Fin 9)])] \<rparr>"
  let ?df' = "\<lparr> df_columns = [10, 20],
             df_rows = [(''g'', [Some (Fin (- 1)), Some (Fin 2)]),
                        (''s'', [Some (Fin (- 3)), Some (Fin 9)])] \<rparr>"
  have a: "wf_track ?df" by (simp add: wf_track_def)
  have b: "polarize ?df 1 (PyInt 1) None = Inr ?df'"
    by (simp add: polarize_eval_defs)
  have c: "\<exists>x\<in>set (concat (map snd (df_rows ?df))). 0 \<le> na0 x" by simp
  have d: "finite_values ?df' = [- 1, 2, - 3, 9]" by (simp add: finite_values_def)
  have e: "largest_is_negative \<lparr> df_columns = [10, 20],
             df_rows = [(''g'', [Some (Fin 1), Some (Fin (- 2))]),
                        (''s'', [Some (Fin 3), Some (Fin (- 9))])] \<rparr>"
    by (simp add: largest_is_negative_def finite_values_def)
  from polarize_largest_value_nonnegative [OF a b c] b d e show ?thesis by simp
qed

subsection \<open>Polarization: a second run\<close>

text \<open>
  C8, as the code has it. When the rows of the guide samples hold only numbers, and
  for any two numbers \<open>v\<close>, \<open>p\<close> of one such row (\<open>v = p\<close> included) the floats
  of \<open>|v| + |p|\<close> and of \<open>||v| - |p||\<close> differ, running \<open>polarize\<close> with the same
  arguments on the track it returned selects the same guide samples, flips no window
  and does not flip the track: the second run returns its input.
\<close>

theorem polarize_idempotent:
  assumes "wf_track df"
    and "select_guides df var_threshold mean_threshold guide_samples = Inr guide_samples_df"
    and "list_all (\<lambda>ir. decided_row (snd ir)) guide_samples_df"
    and "polarize df var_threshold mean_threshold guide_samples = Inr df'"
  shows "polarize df' var_threshold mean_threshold guide_samples = Inr df'"
proof -
  from assms(2,4) obtain rows_lst sw where
    rv: "rows_votes guide_samples_df = Inr rows_lst" and
    sw: "switch_lst_of rows_lst = Inr sw" and
    gf: "global_flip (flip_windows sw df) = Inr df'"
    by (auto simp: polarize_def split: sum.splits)
  from rows_votes_nonempty [OF rv] assms(3)
  have nz: "list_all (\<lambda>ir. decided_row (snd ir) \<and> snd ir \<noteq> []) guide_samples_df"
    by (simp add: list_all_iff)
  from rows_votes_sign_votes [OF nz] rv
  have rl: "rows_lst = map (\<lambda>ir. row_sign_votes (snd ir)) guide_samples_df" by simp
  from sw have sw1: "switch_lst_of (map (\<lambda>ir. row_sign_votes (snd ir)) guide_samples_df) = Inr sw"
    by (simp only: rl)
  from rows_votes_nonempty [OF rv] sw1 obtain ss where s0: "sw = 0 # ss"
    using first_switch_zero by blast
  have idem: "global_flip df' = Inr df'" using gf by (rule global_flip_idem)
  from gf consider "df' = flip_windows sw df" | "df' = negate_track (flip_windows sw df)"
    using global_flip_cases by blast
  then show ?thesis
  proof cases
    case 1
    show ?thesis
    proof (rule polarize_second_run [OF assms(1) _ assms(2) nz sw1 _ _ idem])
      show "list_all2 same_or_negated r (flip_cells sw r)" for r by (rule flip_cells_rel)
      show "row_sign_votes (flip_cells sw r) = flip_votes sw (row_sign_votes r)"
        if "list_all nonzero_number r" for r
        using row_sign_votes_flip_cells [OF that s0] by simp
      show "df' = df\<lparr> df_rows := map (\<lambda>ir. (fst ir, flip_cells sw (snd ir))) (df_rows df) \<rparr>"
        by (simp add: 1 flip_windows_def)
    qed
  next
    case 2
    show ?thesis
    proof (rule polarize_second_run [OF assms(1) _ assms(2) nz sw1 _ _ idem])
      show "list_all2 same_or_negated r (map cneg (flip_cells sw r))" for r
        by (rule map_cneg_rel [OF flip_cells_rel])
      show "row_sign_votes (map cneg (flip_cells sw r)) = flip_votes sw (row_sign_votes r)"
        if "list_all nonzero_number r" for r
        using row_sign_votes_flip_cells [OF that s0]
        by (simp add: row_sign_votes_cneg)
      show "df' = df\<lparr> df_rows := map (\<lambda>ir. (fst ir, map cneg (flip_cells sw (snd ir)))) (df_rows df) \<rparr>"
        by (simp add: 2 flip_windows_def negate_track_def comp_def)
    qed
  qed
qed

theorem polarize_idempotent_witness:
  "wf_track \<lparr> df_columns = [10, 20],
              df_rows = [(''g'', [Some (Fin 1), Some (Fin 2)]), (''s'', [None, Some (Fin (- 7))])] \<rparr>
   \<and> select_guides \<lparr> df_columns = [10, 20],
              df_rows = [(''g'', [Some (Fin 1), Some (Fin 2)]), (''s'', [None, Some (Fin (- 7))])] \<rparr>
        1 (PyInt 1) None = Inr [(''g'', [Some (Fin 1), Some (Fin 2)])]
   \<and> decided_row [Some (Fin 1), Some (Fin 2)]
   \<and> polarize \<lparr> df_columns = [10, 20],
              df_rows = [(''g'', [Some (Fin 1), Some (Fin 2)]), (''s'', [None, Some (Fin (- 7))])] \<rparr>
        1 (PyInt 1) None
      = Inr \<lparr> df_columns = [10, 20],
              df_rows = [(''g'', [Some (Fin 1), Some (Fin (- 2))]), (''s'', [None, Some (Fin 7)])] \<rparr>
   \<and> polarize \<lparr> df_columns = [10, 20],
              df_rows = [(''g'', [Some (Fin 1), Some (Fin (- 2))]), (''s'', [None, Some (Fin 7)])] \<rparr>
        1 (PyInt 1) None
      = Inr \<lparr> df_columns = [10, 20],
              df_rows = [(''g'', [Some (Fin 1), Some (Fin (- 2))]), (''s'', [None, Some (Fin 7)])] \<rparr>"
proof -
  let ?df = "\<lparr> df_columns = [10, 20],
              df_rows = [(''g'', [Some (Fin 1), Some (Fin 2)]), (''s'', [None, Some (Fin (- 7))])] \<rparr>"
  let ?df' = "\<lparr> df_columns = [10, 20],
              df_rows = [(''g'', [Some (Fin 1), Some (Fin (- 2))]), (''s'', [None, Some (Fin 7)])] \<rparr>"
  have a: "wf_track ?df" by (simp add: wf_track_def)
  have b: "select_guides ?df 1 (PyInt 1) None = Inr [(''g'', [Some (Fin 1), Some (Fin 2)])]"
    by (simp add: polarize_eval_defs)
  have r: "decided_row [Some (Fin 1), Some (Fin 2)]"
    by (simp add: decided_row_def comparison_decided_def round_double_simps)
  then have c: "list_all (\<lambda>ir. decided_row (snd ir)) [(''g'', [Some (Fin 1), Some (Fin 2)])]"
    by simp
  have d: "polarize ?df 1 (PyInt 1) None = Inr ?df'"
    by (simp add: polarize_eval_defs)
  from polarize_idempotent [OF a b c d] a b r d show ?thesis by simp
qed

text \<open>
  C8, as the specification has it, fails. With a zero in the guide row \<open>g = [1, 0]\<close>
  the second window is flipped on every run, and the track \<open>g = [1, 0]\<close>,
  \<open>s = [0, 7]\<close> alternates between two states. With a missing first window the first
  window that has a value is flipped on every run: the track \<open>g = [NA, -1, 1]\<close>,
  \<open>s = [NA, 1, 1]\<close> is negated by the second run. With a value that rounding
  absorbs, \<open>g = [-2^-60, 1]\<close>, \<open>h = [2^-60, -1]\<close>, the second window is flipped on
  every run as well, and a second run gives back the input of the first.
\<close>

theorem polarize_idempotent_counterexample:
  "polarize \<lparr> df_columns = [10, 20],
              df_rows = [(''g'', [Some (Fin 1), Some (Fin 0)]), (''s'', [Some (Fin 0), Some (Fin 7)])] \<rparr>
        1 (PyInt 1) None
      = Inr \<lparr> df_columns = [10, 20],
              df_rows = [(''g'', [Some (Fin (- 1)), Some (Fin 0)]), (''s'', [Some (Fin 0), Some (Fin 7)])] \<rparr>
   \<and> polarize \<lparr> df_columns = [10, 20],
              df_rows = [(''g'', [Some (Fin (- 1)), Some (Fin 0)]), (''s'', [Some (Fin 0), Some (Fin 7)])] \<rparr>
        1 (PyInt 1) None
      = Inr \<lparr> df_columns = [10, 20],
              df_rows = [(''g'', [Some (Fin 1), Some (Fin 0)]), (''s'', [Some (Fin 0), Some (Fin 7)])] \<rparr>
   \<and> polarize \<lparr> df_columns = [10, 20, 30],
              df_rows = [(''g'', [None, Some (Fin (- 1)), Some (Fin 1)]),
                         (''s'', [None, Some (Fin 1), Some (Fin 1)])] \<rparr>
        1 (PyInt 1) None
      = Inr \<lparr> df_columns = [10, 20, 30],
              df_rows = [(''g'', [None, Some (Fin 1), Some (Fin 1)]),
                         (''s'', [None, Some (Fin (- 1)), Some (Fin 1)])] \<rparr>
   \<and> polarize \<lparr> df_columns = [10, 20, 30],
              df_rows = [(''g'', [None, Some (Fin 1), Some (Fin 1)]),
                         (''s'', [None, Some (Fin (- 1)), Some (Fin 1)])] \<rparr>
        1 (PyInt 1) None
      = Inr \<lparr> df_columns = [10, 20, 30],
              df_rows = [(''g'', [None, Some (Fin (- 1)), Some (Fin (- 1))]),
                         (''s'', [None, Some (Fin 1), Some (Fin (- 1))])] \<rparr>
   \<and> polarize \<lparr> df_columns = [10, 20],
              df_rows = [(''g'', [Some (Fin (- (1 / 2 ^ 60))), Some (Fin 1)]),
                         (''h'', [Some (Fin (1 / 2 ^ 60)), Some (Fin (- 1))])] \<rparr>
        1 (PyInt 1) None
      = Inr \<lparr> df_columns = [10, 20],
              df_rows = [(''g'', [Some (Fin (- (1 / 2 ^ 60))), Some (Fin (- 1))]),
                         (''h'', [Some (Fin (1 / 2 ^ 60)), Some (Fin 1)])] \<rparr>
   \<and> polarize \<lparr> df_columns = [10, 20],
              df_rows = [(''g'', [Some (Fin (- (1 / 2 ^ 60))), Some (Fin (- 1))]),
                         (''h'', [Some (Fin (1 / 2 ^ 60)), Some (Fin 1)])] \<rparr>
        1 (PyInt 1) None
      = Inr \<lparr> df_columns = [10, 20],
              df_rows = [(''g'', [Some (Fin (- (1 / 2 ^ 60))), Some (Fin 1)]),
                         (''h'', [Some (Fin (1 / 2 ^ 60)), Some (Fin (- 1))])] \<rparr>"
proof -
  have a: "round_double (1152921504606846977 / 1152921504606846976) = 1"
    using round_double_above_1 by simp
  have b: "round_double (1152921504606846975 / 1152921504606846976) = 1"
    using round_double_below_1 by simp
  show ?thesis
    by (simp add: polarize_eval_defs a b)
qed

subsection \<open>Writing and reading the tables\<close>



























end
